theory Spec2Isabelle
  imports Main "HOL-Library.AList" "HOL-Library.Log_Nat"
begin

section \<open>Strings of the source language\<close>

text \<open>
  The program is \<^verbatim>\<open>ollama_subs.py\<close>. Its strings are modelled as \<^typ>\<open>string\<close>, one
  \<^typ>\<open>char\<close> per code point, so the model covers the code points below 256. On that range
  \<^verbatim>\<open>str.isspace\<close> (used by \<^verbatim>\<open>str.strip()\<close> and by the pattern class \<^verbatim>\<open>\s\<close>) holds of
  the twelve characters listed in \<open>isspace\<close>, and the pattern class \<^verbatim>\<open>\d\<close> holds of the ten
  ASCII digits only.
\<close>

definition nl :: char where
  "nl = CHR 0x0A"

definition isspace :: "char \<Rightarrow> bool" where
  "isspace c = (c \<in> set [CHR 0x09, CHR 0x0A, CHR 0x0B, CHR 0x0C, CHR 0x0D,
                          CHR 0x1C, CHR 0x1D, CHR 0x1E, CHR 0x1F, CHR 0x20,
                          CHR 0x85, CHR 0xA0])"

definition isdigit :: "char \<Rightarrow> bool" where
  "isdigit c = (c \<in> set ''0123456789'')"

text \<open>\<^verbatim>\<open>s.strip()\<close>: leading and trailing whitespace removed.\<close>

definition strip :: "string \<Rightarrow> string" where
  "strip s = rev (dropWhile isspace (rev (dropWhile isspace s)))"

text \<open>\<^verbatim>\<open>s.split('\n')\<close>: the pieces between newlines; always at least one piece.\<close>

fun split_nl :: "string \<Rightarrow> string list" where
  "split_nl [] = [[]]"
| "split_nl (c # cs) =
     (if c = nl then [] # split_nl cs
      else (let r = split_nl cs in (c # hd r) # tl r))"

text \<open>\<^verbatim>\<open>"\n".join(xs)\<close>.\<close>

fun join_nl :: "string list \<Rightarrow> string" where
  "join_nl [] = []"
| "join_nl [x] = x"
| "join_nl (x # y # ys) = x @ nl # join_nl (y # ys)"

text \<open>\<^verbatim>\<open>re.sub(r'\D', '', s)\<close>: every character that is not a digit is deleted.\<close>

definition remove_non_digits :: "string \<Rightarrow> string" where
  "remove_non_digits s = filter isdigit s"

section \<open>The response parser\<close>

text \<open>
  A Python \<^verbatim>\<open>dict\<close> from strings to strings is an association list in insertion order:
  \<^verbatim>\<open>d[k] = v\<close> is \<^const>\<open>AList.update\<close> (an existing key keeps its place, a new key goes
  to the end), \<^verbatim>\<open>k in d\<close> is \<open>map_of d k \<noteq> None\<close>, and a dict is truthy when it is not
  \<open>[]\<close>.
\<close>

type_synonym translation_map = "(string \<times> string) list"

text \<open>
  \<^verbatim>\<open>re.compile(r'^(\d+)\s*>>>\s*(.*)').match(line)\<close>. The digits and both whitespace runs
  are greedy, and a shorter run can never be followed by \<^verbatim>\<open>>>>\<close>, so the match is decided
  by the longest runs; \<^verbatim>\<open>.\<close> stops at a newline. The result is the pair of groups 1 and 2.
\<close>

definition new_block_match :: "string \<Rightarrow> (string \<times> string) option" where
  "new_block_match line =
     (let ds = takeWhile isdigit line;
          r = dropWhile isspace (dropWhile isdigit line)
      in if ds \<noteq> [] \<and> take 3 r = ''>>>''
         then Some (ds, takeWhile (\<lambda>c. c \<noteq> nl) (dropWhile isspace (drop 3 r)))
         else None)"

record parse_state =
  translation_map :: translation_map
  current_id :: "string option"
  current_text_lines :: "string list"

definition parse_init :: parse_state where
  "parse_init = \<lparr>translation_map = [], current_id = None, current_text_lines = []\<rparr>"

text \<open>The flush of lines 67-68 and 76-77: store the joined, stripped lines under the current id.\<close>

definition flush :: "parse_state \<Rightarrow> translation_map" where
  "flush st =
     (case current_id st of
        None \<Rightarrow> translation_map st
      | Some cid \<Rightarrow>
          AList.update cid (strip (join_nl (current_text_lines st))) (translation_map st))"

text \<open>One iteration of the loop of lines 61-74.\<close>

definition parse_line :: "parse_state \<Rightarrow> string \<Rightarrow> parse_state" where
  "parse_line st raw =
     (let line = strip raw in
      if line = [] then st
      else case new_block_match line of
             Some (gid, text_part) \<Rightarrow>
               \<lparr>translation_map = flush st,
                current_id = Some gid,
                current_text_lines = (if text_part \<noteq> [] then [text_part] else [])\<rparr>
           | None \<Rightarrow>
               (case current_id st of
                  Some cid \<Rightarrow> st\<lparr>current_text_lines := current_text_lines st @ [line]\<rparr>
                | None \<Rightarrow> st))"

definition parse_llm_response :: "string \<Rightarrow> translation_map" where
  "parse_llm_response response_text =
     flush (foldl parse_line parse_init (split_nl (strip response_text)))"

section \<open>The subtitle parser\<close>

text \<open>
  \<^verbatim>\<open>re.split(r'\n\n+', s)\<close>: the pieces between the runs of two or more newlines. The
  scan is leftmost and the run is greedy, so a separator starts at the first newline that
  is followed by another one and takes every newline after it.
\<close>

function re_split_blank :: "string \<Rightarrow> string list" where
  "re_split_blank [] = [[]]"
| "re_split_blank (c # cs) =
     (if c = nl \<and> cs \<noteq> [] \<and> hd cs = nl
      then [] # re_split_blank (dropWhile (\<lambda>x. x = nl) cs)
      else (let r = re_split_blank cs in (c # hd r) # tl r))"
  by pat_completeness auto
termination
  by (relation "measure length") (auto simp: less_Suc_eq_le length_dropWhile_le)

record subtitle =
  index :: string
  timestamp :: string
  text_of :: string
  translated_text :: string

text \<open>
  The body of the loop of lines 22-35 for one block: \<open>None\<close> when the block has fewer than
  three lines and is skipped. The field \<open>text_of\<close> is the source's key \<^verbatim>\<open>"text"\<close>.
\<close>

definition parse_block :: "string \<Rightarrow> subtitle option" where
  "parse_block block =
     (let lines = split_nl block in
      if 3 \<le> length lines
      then Some \<lparr>index = remove_non_digits (strip (lines ! 0)),
                 timestamp = strip (lines ! 1),
                 text_of = join_nl (drop 2 lines),
                 translated_text = []\<rparr>
      else None)"

definition parse_srt :: "string \<Rightarrow> subtitle list" where
  "parse_srt content = List.map_filter parse_block (re_split_blank (strip content))"

section \<open>The prompt\<close>

definition generate_prompt :: "subtitle list \<Rightarrow> string \<Rightarrow> string \<times> string" where
  "generate_prompt batch target_lang =
     (let formatted_input = join_nl (map (\<lambda>sub. index sub @ '' >>> '' @ text_of sub) batch);
          system_prompt =
            ''You are a professional translator. Translate the text to '' @ target_lang
              @ ''.\<newline>''
              @ ''RULES:\<newline>''
              @ ''1. Output format must be strictly: ID >>> Translated Text\<newline>''
              @ ''2. Maintain the exact same IDs as the input.\<newline>''
              @ ''3. Keep HTML tags (<i>, <b>) exactly as they are.\<newline>''
              @ ''4. Do not output anything else.''
      in (system_prompt, formatted_input))"

section \<open>The recursive batch translator\<close>

record args =
  lang :: string
  model :: string
  batch_size :: int
  retries :: int

datatype py_error = IndexError | ValueError | SystemExit int

text \<open>
  The backend \<^verbatim>\<open>ollama.chat\<close> is outside the program. It is a parameter of the model: a
  function of a backend state \<open>'b\<close>, the model name, the system prompt and the user input,
  which returns the new backend state and either the reply's content (\<open>Inr\<close>) or the
  message of an exception raised by the call or by reading the reply (\<open>Inl\<close>). Every
  behaviour of a backend that answers each call is such a function for some state type.
  The diagnostics written to the error stream are not part of the model; the argument
  \<^verbatim>\<open>depth\<close> of the source only indents them.
\<close>

type_synonym 'b chat = "'b \<Rightarrow> string \<Rightarrow> string \<Rightarrow> string \<Rightarrow> (string + string) \<times> 'b"

text \<open>The validation of line 102: the batch ids with no entry in the map.\<close>

definition missing_ids :: "string list \<Rightarrow> translation_map \<Rightarrow> string list" where
  "missing_ids batch_ids m = filter (\<lambda>bid. map_of m bid = None) batch_ids"

text \<open>
  The loop of lines 91-109 with \<open>n\<close> attempts left: \<open>Some\<close> map at the return of line
  105, \<open>None\<close> when the attempts are used up.
\<close>

fun attempts :: "'b chat \<Rightarrow> string \<Rightarrow> string \<Rightarrow> string \<Rightarrow> string list \<Rightarrow> nat \<Rightarrow> 'b
                  \<Rightarrow> translation_map option \<times> 'b" where
  "attempts chat mdl system_prompt user_input batch_ids 0 b = (None, b)"
| "attempts chat mdl system_prompt user_input batch_ids (Suc n) b =
     (case chat b mdl system_prompt user_input of
        (Inl e, b') \<Rightarrow> attempts chat mdl system_prompt user_input batch_ids n b'
      | (Inr content, b') \<Rightarrow>
          (let m = parse_llm_response content in
           if missing_ids batch_ids m = [] then (Some m, b')
           else attempts chat mdl system_prompt user_input batch_ids n b'))"

text \<open>Lines 85-109 of a call: the prompt is built once, then \<^verbatim>\<open>args.retries\<close> attempts.\<close>

definition try_batch :: "'b chat \<Rightarrow> args \<Rightarrow> subtitle list \<Rightarrow> 'b \<Rightarrow> translation_map option \<times> 'b" where
  "try_batch chat a batch b =
     (let batch_ids = map index batch;
          (system_prompt, user_input) = generate_prompt batch (lang a)
      in attempts chat (model a) system_prompt user_input batch_ids (nat (retries a)) b)"

text \<open>\<^verbatim>\<open>{**results_left, **results_right}\<close>: the right map's entries are stored into the left map.\<close>

definition dict_merge :: "translation_map \<Rightarrow> translation_map \<Rightarrow> translation_map" where
  "dict_merge l r = fold (\<lambda>(k, v). AList.update k v) r l"

function process_batch_recursive ::
    "'b chat \<Rightarrow> args \<Rightarrow> subtitle list \<Rightarrow> 'b \<Rightarrow> py_error + (translation_map \<times> 'b)" where
  "process_batch_recursive chat a batch b =
     (case try_batch chat a batch b of
        (Some m, b1) \<Rightarrow> Inr (m, b1)
      | (None, b1) \<Rightarrow>
          if length batch \<le> 1
          then (case batch of [] \<Rightarrow> Inl IndexError | sub # _ \<Rightarrow> Inr ([], b1))
          else
            (let mid = length batch div 2 in
             case process_batch_recursive chat a (take mid batch) b1 of
               Inl e \<Rightarrow> Inl e
             | Inr (results_left, b2) \<Rightarrow>
                 (case process_batch_recursive chat a (drop mid batch) b2 of
                    Inl e \<Rightarrow> Inl e
                  | Inr (results_right, b3) \<Rightarrow>
                      Inr (dict_merge results_left results_right, b3))))"
  by pat_completeness auto
termination
  by (relation "measure (\<lambda>(chat, a, batch, b). length batch)") auto

declare process_batch_recursive.simps [simp del]

text \<open>
  The recursive calls of lines 123-124, as a relation between invocations. An invocation is
  the batch, the argument \<^verbatim>\<open>depth\<close> and the backend state at entry; the left half is
  invoked when the attempts are used up on a batch of more than one record, the right half
  once the left call has returned.
\<close>

inductive invokes :: "'b chat \<Rightarrow> args \<Rightarrow> subtitle list \<times> nat \<times> 'b \<Rightarrow> subtitle list \<times> nat \<times> 'b \<Rightarrow> bool"
  for chat :: "'b chat" and a :: args where
  invokes_left:
    "try_batch chat a batch b = (None, b1) \<Longrightarrow> \<not> length batch \<le> 1 \<Longrightarrow>
     invokes chat a (batch, depth, b) (take (length batch div 2) batch, depth + 1, b1)"
| invokes_right:
    "try_batch chat a batch b = (None, b1) \<Longrightarrow> \<not> length batch \<le> 1 \<Longrightarrow>
     process_batch_recursive chat a (take (length batch div 2) batch) b1 = Inr (results_left, b2) \<Longrightarrow>
     invokes chat a (batch, depth, b) (drop (length batch div 2) batch, depth + 1, b2)"

section \<open>The pipeline driver\<close>

text \<open>Lines 153-156 for one record: the map's text for the record's id, else its own text.\<close>

definition set_translation :: "translation_map \<Rightarrow> subtitle \<Rightarrow> subtitle" where
  "set_translation m sub =
     (if m \<noteq> [] \<and> map_of m (index sub) \<noteq> None
      then sub\<lparr>translated_text := the (map_of m (index sub))\<rparr>
      else sub\<lparr>translated_text := text_of sub\<rparr>)"






text \<open>Lines 159-162.\<close>

definition write_sub :: "subtitle \<Rightarrow> string" where
  "write_sub sub = index sub @ [nl] @ timestamp sub @ [nl] @ translated_text sub @ [nl, nl]"

definition write_subs :: "subtitle list \<Rightarrow> string" where
  "write_subs subtitles = concat (map write_sub subtitles)"



section \<open>Concrete backends and inputs\<close>

text \<open>
  A scripted backend: its state is the list of the replies it still has to give, and a call
  takes the first one; with none left the call raises.
\<close>

definition scripted_chat :: "(string + string) list chat" where
  "scripted_chat b mdl system_prompt user_input =
     (case b of [] \<Rightarrow> (Inl ''no reply'', []) | r # rs \<Rightarrow> (r, rs))"

text \<open>The default arguments of lines 10-13, with a target language.\<close>

definition default_args :: args where
  "default_args = \<lparr>lang = ''Spanish'', model = ''llama3'', batch_size = 20, retries = 2\<rparr>"

definition sub_of_id :: "string \<Rightarrow> subtitle" where
  "sub_of_id i = \<lparr>index = i, timestamp = ''00:00:01,000 --> 00:00:02,000'',
                  text_of = ''Hi'', translated_text = []\<rparr>"

section \<open>Subtitle files as lists of blocks\<close>

text \<open>
  A subtitle file as the list of its blocks. A block is its id line, its timecode line and
  its text lines; \<open>extra_newlines\<close> counts the newlines of the separator after the block
  beyond the two that make a separator.
\<close>

record srt_block =
  id_line :: string
  timecode_line :: string
  text_lines :: "string list"
  extra_newlines :: nat

definition block_lines :: "srt_block \<Rightarrow> string list" where
  "block_lines blk = id_line blk # timecode_line blk # text_lines blk"

definition block_text :: "srt_block \<Rightarrow> string" where
  "block_text blk = join_nl (block_lines blk)"

text \<open>The blocks with a run of two or more newlines between neighbours.\<close>

fun joined_blocks :: "srt_block list \<Rightarrow> string" where
  "joined_blocks [] = []"
| "joined_blocks [blk] = block_text blk"
| "joined_blocks (blk # blk' # blks) =
     block_text blk @ replicate (Suc (Suc (extra_newlines blk))) nl @ joined_blocks (blk' # blks)"

text \<open>The file: the joined blocks followed by any number of newlines.\<close>

definition srt_content :: "srt_block list \<Rightarrow> nat \<Rightarrow> string" where
  "srt_content blks trailing = joined_blocks blks @ replicate trailing nl"

text \<open>A block has a text line at least, and each of its lines is one non-empty line.\<close>

definition block_ok :: "srt_block \<Rightarrow> bool" where
  "block_ok blk = (text_lines blk \<noteq> [] \<and> list_all (\<lambda>l. l \<noteq> [] \<and> nl \<notin> set l) (block_lines blk))"

text \<open>The record that lines 25-35 build from the lines of a block.\<close>

definition record_of :: "srt_block \<Rightarrow> subtitle" where
  "record_of blk = \<lparr>index = remove_non_digits (strip (id_line blk)),
                    timestamp = strip (timecode_line blk),
                    text_of = join_nl (text_lines blk),
                    translated_text = []\<rparr>"

text \<open>No two newlines in a row.\<close>

fun no_blank :: "string \<Rightarrow> bool" where
  "no_blank [] = True"
| "no_blank [c] = True"
| "no_blank (c # d # cs) = (\<not> (c = nl \<and> d = nl) \<and> no_blank (d # cs))"

definition example_block_1 :: srt_block where
  "example_block_1 = \<lparr>id_line = ''1'', timecode_line = ''00:00:01,000 --> 00:00:02,000'',
                       text_lines = [''Hello'', ''world''], extra_newlines = 1\<rparr>"

definition example_block_2 :: srt_block where
  "example_block_2 = \<lparr>id_line = ''2'', timecode_line = ''00:00:03,000 --> 00:00:04,000'',
                       text_lines = [''Bye''], extra_newlines = 0\<rparr>"

section \<open>Auxiliary facts\<close>

subsection \<open>Dictionaries\<close>

lemma map_of_dict_merge:
  "distinct (map fst r) \<Longrightarrow> map_of (dict_merge l r) = map_of l ++ map_of r"
  unfolding dict_merge_def
proof (induction r arbitrary: l)
  case Nil
  show ?case by simp
next
  case (Cons p r)
  obtain k v where p: "p = (k, v)" by (cases p)
  from Cons.prems p have none: "map_of r k = None"
    by (simp add: map_of_eq_None_iff)
  have step: "map_of (AList.update k v l) ++ map_of r = map_of l ++ map_of ((k, v) # r)"
  proof (rule ext)
    fix x
    show "(map_of (AList.update k v l) ++ map_of r) x = (map_of l ++ map_of ((k, v) # r)) x"
      using none by (cases "x = k") (simp_all add: map_add_def update_conv' split: option.splits)
  qed
  from Cons.prems have "distinct (map fst r)" by simp
  then have "map_of (fold (\<lambda>(k, v). AList.update k v) r (AList.update k v l))
      = map_of (AList.update k v l) ++ map_of r"
    by (rule Cons.IH)
  with step have "map_of (fold (\<lambda>(k, v). AList.update k v) r (AList.update k v l))
      = map_of l ++ map_of ((k, v) # r)"
    by (rule_tac trans)
  then show ?case unfolding p by (simp only: fold_simps o_apply prod.case)
qed

lemma distinct_dict_merge:
  "distinct (map fst l) \<Longrightarrow> distinct (map fst (dict_merge l r))"
  unfolding dict_merge_def
  by (induction r arbitrary: l) (auto simp: distinct_update)

lemma keys_dict_merge:
  "fst ` set (dict_merge l r) = fst ` set l \<union> fst ` set r"
  unfolding dict_merge_def
proof (induction r arbitrary: l)
  case Nil
  show ?case by simp
next
  case (Cons p r)
  obtain k v where p: "p = (k, v)" by (cases p)
  have "fst ` set (fold (\<lambda>(k, v). AList.update k v) r (AList.update k v l))
      = fst ` set (AList.update k v l) \<union> fst ` set r"
    by (rule Cons.IH)
  then show ?case
    by (simp add: p dom_update Un_assoc insert_commute Un_commute Un_left_commute)
qed

lemma distinct_flush:
  "distinct (map fst (translation_map st)) \<Longrightarrow> distinct (map fst (flush st))"
  by (simp add: flush_def distinct_update split: option.splits)

lemma distinct_parse_line:
  "distinct (map fst (translation_map st)) \<Longrightarrow> distinct (map fst (translation_map (parse_line st raw)))"
  by (simp add: parse_line_def Let_def distinct_flush split: option.splits prod.splits)

lemma distinct_foldl_parse_line:
  "distinct (map fst (translation_map st)) \<Longrightarrow>
   distinct (map fst (translation_map (foldl parse_line st ls)))"
  by (induction ls arbitrary: st) (simp_all add: distinct_parse_line)

lemma distinct_parse_llm_response: "distinct (map fst (parse_llm_response s))"
  by (simp add: parse_llm_response_def distinct_flush distinct_foldl_parse_line parse_init_def)

lemma attempts_Some_complete:
  "attempts chat mdl sp ui ids n b = (Some m, b') \<Longrightarrow> missing_ids ids m = []"
proof (induction n arbitrary: b)
  case 0
  then show ?case by simp
next
  case (Suc n)
  then show ?case
    by (auto split: prod.splits sum.splits if_splits simp: Let_def)
qed

lemma process_batch_recursive_success:
  "try_batch chat a batch b = (Some m, b1) \<Longrightarrow> process_batch_recursive chat a batch b = Inr (m, b1)"
  by (subst process_batch_recursive.simps) simp

lemma process_batch_recursive_single:
  "try_batch chat a [sub] b = (None, b1) \<Longrightarrow> process_batch_recursive chat a [sub] b = Inr ([], b1)"
  by (subst process_batch_recursive.simps) simp

lemma process_batch_recursive_empty:
  "try_batch chat a [] b = (None, b1) \<Longrightarrow> process_batch_recursive chat a [] b = Inl IndexError"
  by (subst process_batch_recursive.simps) simp

lemma process_batch_recursive_total:
  "batch \<noteq> [] \<Longrightarrow> \<exists>m b'. process_batch_recursive chat a batch b = Inr (m, b')"
proof (induction chat a batch b rule: process_batch_recursive.induct)
  case (1 chat a batch b)
  obtain r b1 where tb: "try_batch chat a batch b = (r, b1)"
    by (cases "try_batch chat a batch b")
  show ?case
  proof (cases r)
    case (Some m)
    with tb show ?thesis by (subst process_batch_recursive.simps) simp
  next
    case None
    note exhausted = tb[unfolded None]
    show ?thesis
    proof (cases "length batch \<le> 1")
      case True
      with "1.prems" obtain x where "batch = [x]"
        by (cases batch) auto
      with exhausted show ?thesis
        by (auto dest: process_batch_recursive_single)
    next
      case False
      let ?mid = "length batch div 2"
      from False have l: "take ?mid batch \<noteq> []" and r: "drop ?mid batch \<noteq> []"
        by auto
      from "1.IH"(1)[OF exhausted[symmetric] refl False refl l]
      obtain ml b2 where left: "process_batch_recursive chat a (take ?mid batch) b1 = Inr (ml, b2)"
        by blast
      from "1.IH"(2)[OF exhausted[symmetric] refl False refl left refl r]
      obtain mr b3 where right: "process_batch_recursive chat a (drop ?mid batch) b2 = Inr (mr, b3)"
        by blast
      from exhausted False left right show ?thesis
        by (subst process_batch_recursive.simps) simp
    qed
  qed
qed


lemma attempts_distinct:
  "attempts chat mdl sp ui ids n b = (Some m, b') \<Longrightarrow> distinct (map fst m)"
proof (induction n arbitrary: b)
  case 0
  then show ?case by simp
next
  case (Suc n)
  then show ?case
    by (auto split: prod.splits sum.splits if_splits simp: Let_def distinct_parse_llm_response)
qed

lemma process_batch_recursive_split:
  assumes exhausted: "try_batch chat a batch b = (None, b1)" and many: "\<not> length batch \<le> 1"
  shows "\<exists>ml b2 mr b3.
           process_batch_recursive chat a (take (length batch div 2) batch) b1 = Inr (ml, b2) \<and>
           process_batch_recursive chat a (drop (length batch div 2) batch) b2 = Inr (mr, b3) \<and>
           process_batch_recursive chat a batch b = Inr (dict_merge ml mr, b3)"
proof -
  let ?mid = "length batch div 2"
  from many have l: "take ?mid batch \<noteq> []" and r: "drop ?mid batch \<noteq> []"
    by auto
  from process_batch_recursive_total[OF l, of chat a b1]
  obtain ml b2 where left: "process_batch_recursive chat a (take ?mid batch) b1 = Inr (ml, b2)"
    by blast
  from process_batch_recursive_total[OF r, of chat a b2]
  obtain mr b3 where right: "process_batch_recursive chat a (drop ?mid batch) b2 = Inr (mr, b3)"
    by blast
  from exhausted many left right
  have "process_batch_recursive chat a batch b = Inr (dict_merge ml mr, b3)"
    by (subst process_batch_recursive.simps) simp
  with left right show ?thesis by blast
qed

lemma process_batch_recursive_distinct:
  "process_batch_recursive chat a batch b = Inr (m, b') \<Longrightarrow> distinct (map fst m)"
proof (induction chat a batch b arbitrary: m b' rule: process_batch_recursive.induct)
  case (1 chat a batch b)
  obtain r b1 where tb: "try_batch chat a batch b = (r, b1)"
    by (cases "try_batch chat a batch b")
  show ?case
  proof (cases r)
    case (Some m')
    with tb "1.prems" have "m' = m"
      by (subst (asm) process_batch_recursive.simps) simp
    with tb Some show ?thesis
      by (auto simp: try_batch_def Let_def split: prod.splits dest: attempts_distinct)
  next
    case None
    note exhausted = tb[unfolded None]
    show ?thesis
    proof (cases "length batch \<le> 1")
      case True
      with exhausted "1.prems" show ?thesis
        by (cases batch)
          (auto dest: process_batch_recursive_single process_batch_recursive_empty)
    next
      case False
      let ?mid = "length batch div 2"
      from process_batch_recursive_split[OF exhausted False] "1.prems"
      obtain ml b2 mr where
        left: "process_batch_recursive chat a (take ?mid batch) b1 = Inr (ml, b2)" and
        m: "m = dict_merge ml mr"
        by auto
      from "1.IH"(1)[OF exhausted[symmetric] refl False refl left]
      show ?thesis by (simp add: m distinct_dict_merge)
    qed
  qed
qed

subsection \<open>Strings\<close>

lemma strip_id_iff:
  "strip s = s \<longleftrightarrow> (s = [] \<or> (\<not> isspace (hd s) \<and> \<not> isspace (last s)))"
proof (cases s)
  case Nil
  then show ?thesis by (simp add: strip_def)
next
  case (Cons c cs)
  show ?thesis
  proof (cases "isspace c")
    case True
    have "length (strip s) \<le> length (dropWhile isspace s)"
      unfolding strip_def using length_dropWhile_le[of isspace "rev (dropWhile isspace s)"] by simp
    also have "\<dots> < length s"
      using True Cons length_dropWhile_le[of isspace cs] by (simp add: less_Suc_eq_le)
    finally have "strip s \<noteq> s" by auto
    with True Cons show ?thesis by simp
  next
    case False
    then have d: "dropWhile isspace s = s" using Cons by simp
    have "rev s \<noteq> []" using Cons by simp
    then obtain x xs where r: "rev s = x # xs" by (cases "rev s") auto
    then have lx: "last s = x" using Cons by (metis list.sel(1) hd_rev)
    show ?thesis
    proof (cases "isspace x")
      case True
      have "length (strip s) = length (dropWhile isspace (rev s))"
        by (simp add: strip_def d)
      also have "\<dots> < length s"
        using True r length_dropWhile_le[of isspace xs]
        by (metis dropWhile.simps(2) le_imp_less_Suc length_Cons length_rev)
      finally have "strip s \<noteq> s" by auto
      with True lx Cons show ?thesis by simp
    next
      case F2: False
      have "dropWhile isspace (rev s) = rev s" using F2 r by simp
      then have "strip s = s" unfolding strip_def d by simp
      with False F2 lx Cons show ?thesis by simp
    qed
  qed
qed

subsection \<open>The translator\<close>


inductive_cases invokesE: "invokes chat a (batch, depth, b) callee"

subsection \<open>The depth of the recursion\<close>

lemma invokes_step:
  assumes "invokes chat a (batch, depth, b) callee"
  shows "2 \<le> length batch
       \<and> (\<exists>s. callee = (take (length batch div 2) batch, depth + 1, s)
              \<or> callee = (drop (length batch div 2) batch, depth + 1, s))"
  using assms by (auto elim!: invokesE)

lemma half_power:
  fixes n k d :: nat
  assumes "2 \<le> n" and "n \<le> 2 ^ (k - d)" and "d \<le> k"
  shows "Suc d \<le> k \<and> n div 2 \<le> 2 ^ (k - Suc d) \<and> n - n div 2 \<le> 2 ^ (k - Suc d)"
proof -
  have "k - d \<noteq> 0"
  proof
    assume "k - d = 0"
    with assms(2) have "n \<le> 1" by simp
    with assms(1) show False by simp
  qed
  then obtain j where j: "k - d = Suc j" by (cases "k - d") auto
  then have kj: "k - Suc d = j" by simp
  from assms(2) j have "n \<le> 2 * 2 ^ j" by simp
  then have "n div 2 \<le> 2 ^ j" and "n - n div 2 \<le> 2 ^ j" by linarith+
  with j kj show ?thesis by simp
qed

lemma invokes_invariant:
  assumes "(invokes chat a)\<^sup>*\<^sup>* x y"
    and "case x of (bt, d, s) \<Rightarrow> bt \<noteq> [] \<and> d \<le> k \<and> length bt \<le> 2 ^ (k - d)"
  shows "case y of (bt, d, s) \<Rightarrow> bt \<noteq> [] \<and> d \<le> k \<and> length bt \<le> 2 ^ (k - d)"
  using assms
proof (induction rule: rtranclp_induct)
  case base
  then show ?case .
next
  case (step y z)
  obtain bt d s where y: "y = (bt, d, s)" by (cases y)
  from step.IH[OF step.prems] y
  have inv: "bt \<noteq> []" "d \<le> k" "length bt \<le> 2 ^ (k - d)" by simp_all
  from step.hyps(2) y have st: "invokes chat a (bt, d, s) z" by simp
  from invokes_step[OF st] have two: "2 \<le> length bt" by simp
  from half_power[OF two inv(3) inv(2)]
  have hp: "Suc d \<le> k" "length bt div 2 \<le> 2 ^ (k - Suc d)"
    "length bt - length bt div 2 \<le> 2 ^ (k - Suc d)" by simp_all
  from invokes_step[OF st] obtain s' where
    "z = (take (length bt div 2) bt, d + 1, s') \<or> z = (drop (length bt div 2) bt, d + 1, s')"
    by blast
  then show ?case
  proof
    assume "z = (take (length bt div 2) bt, d + 1, s')"
    with two hp show ?thesis by (auto simp: min_def)
  next
    assume "z = (drop (length bt div 2) bt, d + 1, s')"
    with two hp show ?thesis by auto
  qed
qed

subsection \<open>Entries of the parsed reply\<close>

lemma new_block_match_Nil: "new_block_match [] = None"
  by (simp add: new_block_match_def)

lemma map_of_flush_other:
  "current_id st \<noteq> Some k \<Longrightarrow> map_of (flush st) k = map_of (translation_map st) k"
  by (auto simp: flush_def update_conv' split: option.splits)

lemma map_of_flush_current:
  "current_id st = Some k \<Longrightarrow>
   map_of (flush st) k = Some (strip (join_nl (current_text_lines st)))"
  by (simp add: flush_def update_conv')

lemma parse_line_keeps_entry:
  assumes "map_of (translation_map st) k = Some v" and "current_id st \<noteq> Some k"
    and "\<forall>t. new_block_match (strip x) \<noteq> Some (k, t)"
  shows "map_of (translation_map (parse_line st x)) k = Some v
       \<and> current_id (parse_line st x) \<noteq> Some k"
proof (cases "strip x = []")
  case True
  with assms show ?thesis by (simp add: parse_line_def)
next
  case False
  show ?thesis
  proof (cases "new_block_match (strip x)")
    case None
    with False assms show ?thesis
      by (auto simp: parse_line_def split: option.splits)
  next
    case (Some p)
    obtain gid t where p: "p = (gid, t)" by (cases p)
    with Some assms(3) have "gid \<noteq> k" by auto
    with False Some p assms(1,2) show ?thesis
      by (simp add: parse_line_def map_of_flush_other)
  qed
qed

lemma foldl_parse_line_keeps_entry:
  assumes "map_of (translation_map st) k = Some v" and "current_id st \<noteq> Some k"
    and "\<forall>x \<in> set ls. \<forall>t. new_block_match (strip x) \<noteq> Some (k, t)"
  shows "map_of (flush (foldl parse_line st ls)) k = Some v"
  using assms
proof (induction ls arbitrary: st)
  case Nil
  then show ?case by (simp add: map_of_flush_other)
next
  case (Cons x ls)
  from Cons.prems(3) have x: "\<forall>t. new_block_match (strip x) \<noteq> Some (k, t)"
    and rest: "\<forall>x \<in> set ls. \<forall>t. new_block_match (strip x) \<noteq> Some (k, t)"
    by simp_all
  from parse_line_keeps_entry[OF Cons.prems(1,2) x]
  have "map_of (translation_map (parse_line st x)) k = Some v"
    and "current_id (parse_line st x) \<noteq> Some k" by simp_all
  from Cons.IH[OF this rest] show ?case by simp
qed

lemma foldl_parse_line_empty_entry:
  assumes "current_id st = Some k" and "current_text_lines st = []"
    and "\<forall>x \<in> set (takeWhile (\<lambda>x. new_block_match (strip x) = None) ls). strip x = []"
    and "\<forall>x \<in> set ls. \<forall>t. new_block_match (strip x) \<noteq> Some (k, t)"
  shows "map_of (flush (foldl parse_line st ls)) k = Some []"
  using assms
proof (induction ls arbitrary: st)
  case Nil
  then show ?case by (simp add: map_of_flush_current strip_def)
next
  case (Cons x ls)
  from Cons.prems(4) have x: "\<forall>t. new_block_match (strip x) \<noteq> Some (k, t)"
    and rest: "\<forall>x \<in> set ls. \<forall>t. new_block_match (strip x) \<noteq> Some (k, t)"
    by simp_all
  show ?case
  proof (cases "new_block_match (strip x)")
    case None
    with Cons.prems(3) have blank: "strip x = []"
      and cont: "\<forall>x \<in> set (takeWhile (\<lambda>x. new_block_match (strip x) = None) ls). strip x = []"
      by simp_all
    from blank have "parse_line st x = st" by (simp add: parse_line_def)
    with Cons.IH[OF Cons.prems(1,2) cont rest] show ?thesis by simp
  next
    case (Some p)
    obtain gid t where p: "p = (gid, t)" by (cases p)
    with Some x have ne: "gid \<noteq> k" by auto
    from Some have nb: "strip x \<noteq> []" by (auto simp: new_block_match_Nil)
    from Cons.prems(1,2) have "map_of (flush st) k = Some []"
      by (simp add: map_of_flush_current strip_def)
    with nb Some p ne have "map_of (translation_map (parse_line st x)) k = Some []"
      and "current_id (parse_line st x) \<noteq> Some k"
      by (simp_all add: parse_line_def)
    from foldl_parse_line_keeps_entry[OF this rest] show ?thesis by simp
  qed
qed

lemma parse_llm_response_empty_entry:
  assumes "split_nl (strip reply) = pre @ l # post"
    and "new_block_match (strip l) = Some (k, [])"
    and "\<forall>x \<in> set (takeWhile (\<lambda>x. new_block_match (strip x) = None) post). strip x = []"
    and "\<forall>x \<in> set post. \<forall>t. new_block_match (strip x) \<noteq> Some (k, t)"
  shows "map_of (parse_llm_response reply) k = Some []"
proof -
  let ?st = "parse_line (foldl parse_line parse_init pre) l"
  from assms(2) have nb: "strip l \<noteq> []" by (auto simp: new_block_match_Nil)
  with assms(2) have "current_id ?st = Some k" and "current_text_lines ?st = []"
    by (simp_all add: parse_line_def)
  from foldl_parse_line_empty_entry[OF this assms(3,4)]
  show ?thesis by (simp add: parse_llm_response_def assms(1))
qed

subsection \<open>The loop over the batches\<close>







subsection \<open>The text of a parsed record\<close>

lemma isspace_nl: "isspace nl"
  by (simp add: isspace_def nl_def)














subsection \<open>Parsing a file of blocks\<close>

lemma re_split_blank_else:
  assumes "\<not> (c = nl \<and> cs \<noteq> [] \<and> hd cs = nl)"
  shows "re_split_blank (c # cs) = (c # hd (re_split_blank cs)) # tl (re_split_blank cs)"
  by (simp only: re_split_blank.simps if_not_P[OF assms] Let_def)

lemma re_split_blank_single:
  "no_blank s \<Longrightarrow> s = [] \<or> last s \<noteq> nl \<Longrightarrow> re_split_blank s = [s]"
proof (induction s rule: no_blank.induct)
  case 1
  show ?case by simp
next
  case (2 c)
  show ?case by simp
next
  case (3 c d cs)
  then have "re_split_blank (d # cs) = [d # cs]" by simp
  moreover from "3.prems" have "\<not> (c = nl \<and> d # cs \<noteq> [] \<and> hd (d # cs) = nl)" by simp
  ultimately show ?case
    by (simp add: re_split_blank_else del: re_split_blank.simps)
qed

lemma re_split_blank_separator:
  "re_split_blank (nl # nl # replicate k nl @ c # rest) = [] # re_split_blank (c # rest)"
  if "c \<noteq> nl"
proof -
  have "dropWhile (\<lambda>x. x = nl) (nl # replicate k nl @ c # rest) = c # rest"
    using that by (induction k) simp_all
  then show ?thesis by simp
qed

lemma re_split_blank_append:
  assumes "s \<noteq> []" and "no_blank s" and "last s \<noteq> nl" and "c \<noteq> nl"
  shows "re_split_blank (s @ replicate (Suc (Suc k)) nl @ c # rest) = s # re_split_blank (c # rest)"
  using assms
proof (induction s rule: no_blank.induct)
  case 1
  then show ?case by simp
next
  case (2 x)
  then have "x \<noteq> nl" by simp
  then show ?case
    using re_split_blank_separator[OF \<open>c \<noteq> nl\<close>, of k rest] by (simp add: Let_def)
next
  case (3 x d cs)
  then have ih: "re_split_blank ((d # cs) @ replicate (Suc (Suc k)) nl @ c # rest)
      = (d # cs) # re_split_blank (c # rest)" by simp
  from "3.prems" have "\<not> (x = nl \<and> d = nl)" by simp
  then have "\<not> (x = nl \<and> (d # cs) @ replicate (Suc (Suc k)) nl @ c # rest \<noteq> []
      \<and> hd ((d # cs) @ replicate (Suc (Suc k)) nl @ c # rest) = nl)" by simp
  then have "re_split_blank (x # (d # cs) @ replicate (Suc (Suc k)) nl @ c # rest)
      = (x # hd (re_split_blank ((d # cs) @ replicate (Suc (Suc k)) nl @ c # rest)))
        # tl (re_split_blank ((d # cs) @ replicate (Suc (Suc k)) nl @ c # rest))"
    by (rule re_split_blank_else)
  with ih show ?case by (simp del: re_split_blank.simps)
qed


lemma split_nl_line: "nl \<notin> set l \<Longrightarrow> split_nl l = [l]"
  by (induction l) (auto simp: Let_def)

lemma split_nl_append: "nl \<notin> set l \<Longrightarrow> split_nl (l @ nl # rest) = l # split_nl rest"
  by (induction l) (auto simp: Let_def)

lemma split_nl_join:
  "ls \<noteq> [] \<Longrightarrow> \<forall>l \<in> set ls. nl \<notin> set l \<Longrightarrow> split_nl (join_nl ls) = ls"
  by (induction ls rule: join_nl.induct) (simp_all add: split_nl_line split_nl_append)

lemma no_blank_line: "nl \<notin> set l \<Longrightarrow> no_blank l"
  by (induction l rule: no_blank.induct) auto

lemma no_blank_append:
  "l \<noteq> [] \<Longrightarrow> nl \<notin> set l \<Longrightarrow> no_blank rest \<Longrightarrow> rest \<noteq> [] \<Longrightarrow> hd rest \<noteq> nl \<Longrightarrow>
   no_blank (l @ nl # rest)"
proof (induction l rule: no_blank.induct)
  case 1
  then show ?case by simp
next
  case (2 c)
  then show ?case by (cases rest) auto
next
  case (3 c d cs)
  then show ?case by auto
qed

lemma join_nl_lines:
  assumes "ls \<noteq> []" and "\<forall>l \<in> set ls. l \<noteq> [] \<and> nl \<notin> set l"
  shows "join_nl ls \<noteq> [] \<and> hd (join_nl ls) = hd (hd ls) \<and> last (join_nl ls) = last (last ls)
       \<and> no_blank (join_nl ls)"
  using assms
proof (induction ls rule: join_nl.induct)
  case 1
  then show ?case by simp
next
  case (2 x)
  then show ?case by (simp add: no_blank_line)
next
  case (3 x y ys)
  then have ih: "join_nl (y # ys) \<noteq> []" "hd (join_nl (y # ys)) = hd y"
    "last (join_nl (y # ys)) = last (last (y # ys))" "no_blank (join_nl (y # ys))"
    by simp_all
  from "3.prems" have x: "x \<noteq> []" "nl \<notin> set x" and y: "y \<noteq> []" "nl \<notin> set y"
    by simp_all
  from y ih(2) have "hd (join_nl (y # ys)) \<noteq> nl" by (metis hd_in_set)
  with x ih have "no_blank (x @ nl # join_nl (y # ys))" by (intro no_blank_append)
  with x ih show ?case by simp
qed

lemma block_text_facts:
  assumes "block_ok blk"
  shows "block_text blk \<noteq> []" and "hd (block_text blk) = hd (id_line blk)"
    and "last (block_text blk) = last (last (text_lines blk))"
    and "no_blank (block_text blk)" and "hd (block_text blk) \<noteq> nl"
    and "last (block_text blk) \<noteq> nl"
    and "split_nl (block_text blk) = block_lines blk"
proof -
  from assms have ls: "block_lines blk \<noteq> []"
    "\<forall>l \<in> set (block_lines blk). l \<noteq> [] \<and> nl \<notin> set l" and t: "text_lines blk \<noteq> []"
    by (simp_all add: block_ok_def block_lines_def list_all_iff)
  from join_nl_lines[OF ls]
  show a: "block_text blk \<noteq> []" and b: "hd (block_text blk) = hd (id_line blk)"
    and "no_blank (block_text blk)"
    by (simp_all add: block_text_def block_lines_def)
  from join_nl_lines[OF ls] t
  show c: "last (block_text blk) = last (last (text_lines blk))"
    by (simp add: block_text_def block_lines_def)
  from ls(2) have "id_line blk \<noteq> []" "nl \<notin> set (id_line blk)"
    by (simp_all add: block_lines_def)
  with b show "hd (block_text blk) \<noteq> nl" by (metis hd_in_set)
  from ls(2) t have "last (text_lines blk) \<noteq> []" "nl \<notin> set (last (text_lines blk))"
    by (simp_all add: block_lines_def)
  with c show "last (block_text blk) \<noteq> nl" by (metis last_in_set)
  from ls show "split_nl (block_text blk) = block_lines blk"
    by (simp add: block_text_def split_nl_join)
qed

lemma parse_block_block_text:
  assumes "block_ok blk"
  shows "parse_block (block_text blk) = Some (record_of blk)"
proof -
  from assms have "text_lines blk \<noteq> []" by (simp add: block_ok_def)
  then have "3 \<le> length (block_lines blk)"
    by (cases "text_lines blk") (simp_all add: block_lines_def)
  then show ?thesis
    by (simp add: parse_block_def block_text_facts(7)[OF assms] record_of_def block_lines_def)
qed

lemma joined_blocks_facts:
  assumes "blks \<noteq> []" and "\<forall>blk \<in> set blks. block_ok blk"
  shows "joined_blocks blks \<noteq> [] \<and> hd (joined_blocks blks) = hd (id_line (hd blks))
       \<and> last (joined_blocks blks) = last (last (text_lines (last blks)))
       \<and> re_split_blank (joined_blocks blks) = map block_text blks"
  using assms
proof (induction blks rule: joined_blocks.induct)
  case 1
  then show ?case by simp
next
  case (2 blk)
  then have ok: "block_ok blk" by simp
  from block_text_facts[OF ok] show ?case
    by (simp add: re_split_blank_single del: re_split_blank.simps)
next
  case (3 blk blk' blks)
  then have ok: "block_ok blk" and ok': "block_ok blk'" by simp_all
  from 3 have ih: "joined_blocks (blk' # blks) \<noteq> []"
    "hd (joined_blocks (blk' # blks)) = hd (id_line blk')"
    "last (joined_blocks (blk' # blks)) = last (last (text_lines (last (blk' # blks))))"
    "re_split_blank (joined_blocks (blk' # blks)) = map block_text (blk' # blks)"
    by simp_all
  from ih(1) obtain c rest where cr: "joined_blocks (blk' # blks) = c # rest"
    by (cases "joined_blocks (blk' # blks)") auto
  with ih(2) block_text_facts(2,5)[OF ok'] have c: "c \<noteq> nl" by simp
  note bt = block_text_facts[OF ok]
  from re_split_blank_append[OF bt(1) bt(4) bt(6) c, of "extra_newlines blk" rest] ih(4) cr
  have "re_split_blank (joined_blocks (blk # blk' # blks)) = map block_text (blk # blk' # blks)"
    by (simp del: re_split_blank.simps replicate.simps)
  moreover from bt(1,2) have "hd (joined_blocks (blk # blk' # blks)) = hd (id_line blk)"
    by simp
  moreover from ih(1,3)
  have "last (joined_blocks (blk # blk' # blks)) = last (last (text_lines (last (blk # blk' # blks))))"
    by simp
  ultimately show ?case using bt(1) by simp
qed


lemma strip_whitespace: "\<forall>c \<in> set w. isspace c \<Longrightarrow> strip w = []"
proof -
  assume "\<forall>c \<in> set w. isspace c"
  then have d: "dropWhile isspace w = []" by simp
  show ?thesis unfolding strip_def d by simp
qed

lemma strip_not_Nil: "strip s \<noteq> [] \<Longrightarrow> dropWhile isspace s \<noteq> []"
proof
  assume n: "strip s \<noteq> []" and d: "dropWhile isspace s = []"
  have "strip s = []" unfolding strip_def d by simp
  with n show False by simp
qed

lemma strip_prepend: "\<forall>c \<in> set w. isspace c \<Longrightarrow> strip (w @ s) = strip s"
  by (simp add: strip_def)

lemma strip_append: "\<forall>c \<in> set w. isspace c \<Longrightarrow> strip (s @ w) = strip s"
proof (cases "\<forall>c \<in> set s. isspace c")
  case True
  assume "\<forall>c \<in> set w. isspace c"
  with True have "strip (s @ w) = []" by (intro strip_whitespace) auto
  with True show ?thesis by (simp add: strip_whitespace)
next
  case False
  assume w: "\<forall>c \<in> set w. isspace c"
  from False obtain x where "x \<in> set s" "\<not> isspace x" by blast
  then have "dropWhile isspace (s @ w) = dropWhile isspace s @ w"
    by (rule dropWhile_append1)
  moreover from w have "dropWhile isspace (rev w @ rev (dropWhile isspace s))
      = dropWhile isspace (rev (dropWhile isspace s))"
    by (intro dropWhile_append2) simp
  ultimately show ?thesis by (simp add: strip_def)
qed

lemma strip_dropWhile: "strip (dropWhile isspace s) = strip s"
  by (simp add: strip_def)

lemma isdigit_not_isspace: "isdigit c \<Longrightarrow> \<not> isspace c"
  by (auto simp: isdigit_def isspace_def)

lemma map_filter_parse_block:
  "\<forall>blk \<in> set blks. block_ok blk \<Longrightarrow>
   List.map_filter parse_block (map block_text blks) = map record_of blks"
  by (induction blks) (simp_all add: parse_block_block_text)

lemma parse_srt_trimmed:
  assumes "blks \<noteq> []" and "\<forall>blk \<in> set blks. block_ok blk"
    and "\<not> isspace (hd (id_line (hd blks)))"
    and "\<not> isspace (last (last (text_lines (last blks))))"
    and "\<forall>c \<in> set w. isspace c"
  shows "parse_srt (w @ joined_blocks blks @ replicate trailing nl) = map record_of blks"
proof -
  note j = joined_blocks_facts[OF assms(1,2)]
  have "\<forall>c \<in> set (replicate trailing nl). isspace c" by (simp add: isspace_nl)
  then have "strip (w @ joined_blocks blks @ replicate trailing nl) = strip (joined_blocks blks)"
    using assms(5) by (simp add: strip_prepend strip_append)
  also from j assms(3,4) have "\<dots> = joined_blocks blks"
    by (simp add: strip_id_iff)
  finally show ?thesis
    using j assms(2) by (simp add: parse_srt_def map_filter_parse_block)
qed

lemma block_text_split:
  "text_lines blk \<noteq> [] \<Longrightarrow>
   block_text blk = id_line blk @ nl # timecode_line blk @ nl # join_nl (text_lines blk)"
  by (cases "text_lines blk") (simp_all add: block_text_def block_lines_def)

lemma joined_blocks_leading:
  assumes "text_lines blk \<noteq> []"
  shows "joined_blocks (blk # blks)
       = takeWhile isspace (id_line blk)
           @ joined_blocks (blk\<lparr>id_line := dropWhile isspace (id_line blk)\<rparr> # blks)"
proof -
  let ?blk = "blk\<lparr>id_line := dropWhile isspace (id_line blk)\<rparr>"
  from assms have "block_text blk = takeWhile isspace (id_line blk) @ block_text ?blk"
    by (simp add: block_text_split)
  then show ?thesis by (cases blks) simp_all
qed

section \<open>Properties\<close>

text \<open>
  C6. The response parser applied to the three-line reply
  \<^verbatim>\<open>1 >>> Hello\<close>, \<^verbatim>\<open>world\<close>, \<^verbatim>\<open>2 >>> Bye\<close> returns exactly the map that sends
  \<^verbatim>\<open>1\<close> to the two lines \<^verbatim>\<open>Hello\<close>, \<^verbatim>\<open>world\<close> and \<^verbatim>\<open>2\<close> to \<^verbatim>\<open>Bye\<close>.
\<close>

theorem parse_llm_response_multiline:
  "parse_llm_response ''1 >>> Hello\<newline>world\<newline>2 >>> Bye''
     = [(''1'', ''Hello\<newline>world''), (''2'', ''Bye'')]"
  by code_simp

text \<open>
  C7 (as amended). The response parser first removes the leading and trailing whitespace
  of a reply line (line 62). When the stripped line is not empty and does not match the
  new-entry pattern while a current id is active, the stripped line is appended to that
  id's lines and nothing else changes; what is appended is the reply line character for
  character exactly when the reply line neither starts nor ends with whitespace.
\<close>

theorem parse_line_appends_stripped:
  assumes "strip raw \<noteq> []" and "new_block_match (strip raw) = None"
    and "current_id st = Some cid"
  shows "parse_line st raw = st\<lparr>current_text_lines := current_text_lines st @ [strip raw]\<rparr>
       \<and> (current_text_lines (parse_line st raw) = current_text_lines st @ [raw]
            \<longleftrightarrow> \<not> isspace (hd raw) \<and> \<not> isspace (last raw))"
proof -
  from assms have eq: "parse_line st raw = st\<lparr>current_text_lines := current_text_lines st @ [strip raw]\<rparr>"
    by (simp add: parse_line_def Let_def)
  from assms(1) have "raw \<noteq> []" by (auto simp: strip_def)
  with eq strip_id_iff[of raw] show ?thesis by simp
qed

text \<open>The amended C7 at the line \<^verbatim>\<open>"  b  "\<close> while id 1 is active.\<close>

theorem parse_line_appends_stripped_witness:
  "strip ''  b  '' \<noteq> [] \<and> new_block_match (strip ''  b  '') = None
   \<and> parse_line \<lparr>translation_map = [], current_id = Some ''1'', current_text_lines = [''a'']\<rparr> ''  b  ''
       = \<lparr>translation_map = [], current_id = Some ''1'', current_text_lines = [''a'', ''b'']\<rparr>"
proof -
  have h1: "strip ''  b  '' \<noteq> []" by code_simp
  have h2: "new_block_match (strip ''  b  '') = None" by code_simp
  have h3: "current_id \<lparr>translation_map = [], current_id = Some ''1'', current_text_lines = [''a'']\<rparr> = Some ''1''"
    by simp
  have s: "strip ''  b  '' = ''b''" by code_simp
  from parse_line_appends_stripped[OF h1 h2 h3] h1 h2 show ?thesis
    by (simp add: s)
qed

text \<open>
  C7 as stated fails. The line \<^verbatim>\<open>"  b  "\<close> is not blank and does not match, id 1 is
  active, and what is appended is \<^verbatim>\<open>"b"\<close>, not the line itself; the parsed reply shows
  the same loss. The line \<^verbatim>\<open>"  5 >>> x"\<close> is not blank and does not match either (it
  starts with spaces), yet it is not appended at all: stripped, it matches and starts the
  entry of id 5.
\<close>

theorem parse_line_verbatim_counterexample:
  "strip ''  b  '' \<noteq> [] \<and> new_block_match ''  b  '' = None \<and> new_block_match (strip ''  b  '') = None
   \<and> current_id \<lparr>translation_map = [], current_id = Some ''1'', current_text_lines = [''a'']\<rparr> = Some ''1''
   \<and> current_text_lines
        (parse_line \<lparr>translation_map = [], current_id = Some ''1'', current_text_lines = [''a'']\<rparr> ''  b  '')
       \<noteq> current_text_lines \<lparr>translation_map = [], current_id = Some ''1'', current_text_lines = [''a'']\<rparr>
           @ [''  b  '']
   \<and> parse_llm_response ''1 >>> a\<newline>  b  \<newline>2 >>> c'' = [(''1'', ''a\<newline>b''), (''2'', ''c'')]
   \<and> strip ''  5 >>> x'' \<noteq> [] \<and> new_block_match ''  5 >>> x'' = None
   \<and> parse_line \<lparr>translation_map = [], current_id = Some ''1'', current_text_lines = [''a'']\<rparr> ''  5 >>> x''
       = \<lparr>translation_map = [(''1'', ''a'')], current_id = Some ''5'', current_text_lines = [''x'']\<rparr>"
  by code_simp

text \<open>
  C8 (as amended). For every accepted input block, the record's timecode is line 1 of the
  block with its leading and trailing whitespace removed (line 28 strips it); the merge of
  a batch's translations leaves it unchanged and the serialised record carries it between
  the id and the text. It is identical to the input line exactly when that line is empty
  or neither starts nor ends with whitespace.
\<close>

theorem timestamp_is_stripped_line:
  assumes "parse_block block = Some sub"
  shows "3 \<le> length (split_nl block)
       \<and> timestamp sub = strip (split_nl block ! 1)
       \<and> timestamp (set_translation m sub) = strip (split_nl block ! 1)
       \<and> write_sub (set_translation m sub)
           = index sub @ [nl] @ strip (split_nl block ! 1) @ [nl]
               @ translated_text (set_translation m sub) @ [nl, nl]
       \<and> (timestamp sub = split_nl block ! 1
            \<longleftrightarrow> split_nl block ! 1 = []
                \<or> \<not> isspace (hd (split_nl block ! 1)) \<and> \<not> isspace (last (split_nl block ! 1)))"
proof -
  from assms have len: "3 \<le> length (split_nl block)"
    by (simp add: parse_block_def Let_def split: if_splits)
  from assms have ts: "timestamp sub = strip (split_nl block ! 1)"
    by (auto simp: parse_block_def Let_def split: if_splits)
  have keep: "timestamp (set_translation m sub) = timestamp sub"
    and idx: "index (set_translation m sub) = index sub"
    by (simp_all add: set_translation_def)
  from len ts keep idx strip_id_iff[of "split_nl block ! 1"] show ?thesis
    by (simp add: write_sub_def)
qed

text \<open>The amended C8 at a block whose timecode line has a space on each side.\<close>

theorem timestamp_is_stripped_line_witness:
  "parse_block ''7\<newline> 00:00:01,000 --> 00:00:02,000 \<newline>Hi''
     = Some \<lparr>index = ''7'', timestamp = ''00:00:01,000 --> 00:00:02,000'',
             text_of = ''Hi'', translated_text = []\<rparr>
   \<and> split_nl ''7\<newline> 00:00:01,000 --> 00:00:02,000 \<newline>Hi'' ! 1
       = '' 00:00:01,000 --> 00:00:02,000 ''
   \<and> write_sub (set_translation [(''7'', ''Hola'')]
        \<lparr>index = ''7'', timestamp = ''00:00:01,000 --> 00:00:02,000'',
         text_of = ''Hi'', translated_text = []\<rparr>)
       = ''7\<newline>00:00:01,000 --> 00:00:02,000\<newline>Hola\<newline>\<newline>''"
proof -
  have h: "parse_block ''7\<newline> 00:00:01,000 --> 00:00:02,000 \<newline>Hi''
     = Some \<lparr>index = ''7'', timestamp = ''00:00:01,000 --> 00:00:02,000'',
             text_of = ''Hi'', translated_text = []\<rparr>"
    by code_simp
  have l: "split_nl ''7\<newline> 00:00:01,000 --> 00:00:02,000 \<newline>Hi'' ! 1
       = '' 00:00:01,000 --> 00:00:02,000 ''"
    by code_simp
  have s: "strip '' 00:00:01,000 --> 00:00:02,000 '' = ''00:00:01,000 --> 00:00:02,000''"
    by code_simp
  have t: "translated_text (set_translation [(''7'', ''Hola'')]
        \<lparr>index = ''7'', timestamp = ''00:00:01,000 --> 00:00:02,000'',
         text_of = ''Hi'', translated_text = []\<rparr>) = ''Hola''"
    by code_simp
  from timestamp_is_stripped_line[OF h, of "[(''7'', ''Hola'')]"] h l show ?thesis
    by (simp add: s t nl_def)
qed

text \<open>
  C8 as stated fails: the block below is accepted, and the timecode of its record is not
  the block's line 1, which carries a space on each side.
\<close>

theorem timestamp_verbatim_counterexample:
  "3 \<le> length (split_nl ''7\<newline> 00:00:01,000 --> 00:00:02,000 \<newline>Hi'')
   \<and> parse_srt ''7\<newline> 00:00:01,000 --> 00:00:02,000 \<newline>Hi''
       = [\<lparr>index = ''7'', timestamp = ''00:00:01,000 --> 00:00:02,000'',
           text_of = ''Hi'', translated_text = []\<rparr>]
   \<and> map timestamp (parse_srt ''7\<newline> 00:00:01,000 --> 00:00:02,000 \<newline>Hi'')
       \<noteq> [split_nl ''7\<newline> 00:00:01,000 --> 00:00:02,000 \<newline>Hi'' ! 1]"
  by code_simp

text \<open>
  C3. When a batch of at least two records uses up its attempts without a complete map,
  the translator splits it at the midpoint: the left half is the first
  \<open>length batch div 2\<close> records and the right half the rest; each half is translated by
  a call with the same arguments (hence the same retry budget), the right one from the
  backend state the left one leaves; both calls return, and the result is the merge of the
  two maps, whose keys are the union of the halves' keys.
\<close>

theorem bisect_at_midpoint:
  assumes "try_batch chat a batch b = (None, b1)" and "2 \<le> length batch"
  shows "\<exists>results_left b2 results_right b3.
           length (take (length batch div 2) batch) = length batch div 2
         \<and> take (length batch div 2) batch @ drop (length batch div 2) batch = batch
         \<and> process_batch_recursive chat a (take (length batch div 2) batch) b1
             = Inr (results_left, b2)
         \<and> process_batch_recursive chat a (drop (length batch div 2) batch) b2
             = Inr (results_right, b3)
         \<and> process_batch_recursive chat a batch b
             = Inr (dict_merge results_left results_right, b3)
         \<and> fst ` set (dict_merge results_left results_right)
             = fst ` set results_left \<union> fst ` set results_right
         \<and> map_of (dict_merge results_left results_right)
             = map_of results_left ++ map_of results_right"
proof -
  from assms(2) have many: "\<not> length batch \<le> 1" by simp
  from process_batch_recursive_split[OF assms(1) many]
  obtain ml b2 mr b3 where
    left: "process_batch_recursive chat a (take (length batch div 2) batch) b1 = Inr (ml, b2)" and
    right: "process_batch_recursive chat a (drop (length batch div 2) batch) b2 = Inr (mr, b3)" and
    whole: "process_batch_recursive chat a batch b = Inr (dict_merge ml mr, b3)"
    by blast
  from right have "distinct (map fst mr)" by (rule process_batch_recursive_distinct)
  then have "map_of (dict_merge ml mr) = map_of ml ++ map_of mr"
    by (rule map_of_dict_merge)
  moreover have "length (take (length batch div 2) batch) = length batch div 2"
    by simp
  ultimately show ?thesis
    using left right whole keys_dict_merge[of ml mr] by (intro exI conjI) simp_all
qed

text \<open>
  C3 on a batch of two records: both attempts fail, then each half succeeds.
\<close>

theorem bisect_at_midpoint_witness:
  "try_batch scripted_chat default_args [sub_of_id ''1'', sub_of_id ''2'']
       [Inr ''1 >>> Uno'', Inr ''nothing'', Inr ''1 >>> Uno'', Inr ''2 >>> Dos'']
     = (None, [Inr ''1 >>> Uno'', Inr ''2 >>> Dos''])
   \<and> 2 \<le> length [sub_of_id ''1'', sub_of_id ''2'']
   \<and> process_batch_recursive scripted_chat default_args [sub_of_id ''1'', sub_of_id ''2'']
       [Inr ''1 >>> Uno'', Inr ''nothing'', Inr ''1 >>> Uno'', Inr ''2 >>> Dos'']
     = Inr ([(''1'', ''Uno''), (''2'', ''Dos'')], [])"
proof -
  let ?batch = "[sub_of_id ''1'', sub_of_id ''2'']"
  have h1: "try_batch scripted_chat default_args ?batch
       [Inr ''1 >>> Uno'', Inr ''nothing'', Inr ''1 >>> Uno'', Inr ''2 >>> Dos'']
     = (None, [Inr ''1 >>> Uno'', Inr ''2 >>> Dos''])"
    by code_simp
  have h2: "2 \<le> length ?batch" by simp
  have tk: "take (length ?batch div 2) ?batch = [sub_of_id ''1'']"
    and dr: "drop (length ?batch div 2) ?batch = [sub_of_id ''2'']"
    by simp_all
  have eL: "process_batch_recursive scripted_chat default_args [sub_of_id ''1'']
       [Inr ''1 >>> Uno'', Inr ''2 >>> Dos''] = Inr ([(''1'', ''Uno'')], [Inr ''2 >>> Dos''])"
    by (rule process_batch_recursive_success) code_simp
  have eR: "process_batch_recursive scripted_chat default_args [sub_of_id ''2'']
       [Inr ''2 >>> Dos''] = Inr ([(''2'', ''Dos'')], [])"
    by (rule process_batch_recursive_success) code_simp
  have mg: "dict_merge [(''1'', ''Uno'')] [(''2'', ''Dos'')] = [(''1'', ''Uno''), (''2'', ''Dos'')]"
    by code_simp
  from bisect_at_midpoint[OF h1 h2] obtain ml b2 mr b3 where
    L: "process_batch_recursive scripted_chat default_args (take (length ?batch div 2) ?batch)
          [Inr ''1 >>> Uno'', Inr ''2 >>> Dos''] = Inr (ml, b2)" and
    R: "process_batch_recursive scripted_chat default_args (drop (length ?batch div 2) ?batch) b2
          = Inr (mr, b3)" and
    W: "process_batch_recursive scripted_chat default_args ?batch
          [Inr ''1 >>> Uno'', Inr ''nothing'', Inr ''1 >>> Uno'', Inr ''2 >>> Dos'']
          = Inr (dict_merge ml mr, b3)"
    by (elim exE conjE) (rule that, assumption+)
  from L have ml: "ml = [(''1'', ''Uno'')]" and b2: "b2 = [Inr ''2 >>> Dos'']"
    unfolding tk eL by simp_all
  from R have mr: "mr = [(''2'', ''Dos'')]" and b3: "b3 = []"
    unfolding dr b2 eR by simp_all
  from W have "process_batch_recursive scripted_chat default_args ?batch
          [Inr ''1 >>> Uno'', Inr ''nothing'', Inr ''1 >>> Uno'', Inr ''2 >>> Dos'']
          = Inr ([(''1'', ''Uno''), (''2'', ''Dos'')], [])"
    unfolding ml mr b3 mg .
  with h1 h2 show ?thesis by (intro conjI)
qed

text \<open>
  C2. The success exit (line 105) returns a map only when the map has an entry for every
  id of the batch; an attempt whose parsed reply lacks a batch id is not accepted, the loop
  goes on with the next attempt; and when the attempts are used up on a batch of two or
  more records the translator returns the merge of the results of the two halves.
\<close>

theorem success_exit_needs_every_id:
  "(try_batch chat a batch b = (Some m, b1) \<longrightarrow>
      (\<forall>sub \<in> set batch. map_of m (index sub) \<noteq> None)
      \<and> process_batch_recursive chat a batch b = Inr (m, b1))
   \<and> (chat s mdl system_prompt user_input = (Inr content, s') \<and> bid \<in> set batch_ids
       \<and> map_of (parse_llm_response content) bid = None \<longrightarrow>
      attempts chat mdl system_prompt user_input batch_ids (Suc n) s
        = attempts chat mdl system_prompt user_input batch_ids n s')
   \<and> (try_batch chat a batch' b' = (None, b1') \<and> 2 \<le> length batch' \<longrightarrow>
      (\<exists>results_left b2 results_right b3.
         process_batch_recursive chat a (take (length batch' div 2) batch') b1'
           = Inr (results_left, b2)
       \<and> process_batch_recursive chat a (drop (length batch' div 2) batch') b2
           = Inr (results_right, b3)
       \<and> process_batch_recursive chat a batch' b'
           = Inr (dict_merge results_left results_right, b3)))"
proof (intro conjI impI)
  assume ok: "try_batch chat a batch b = (Some m, b1)"
  then have "missing_ids (map index batch) m = []"
    by (auto simp: try_batch_def Let_def split: prod.splits dest: attempts_Some_complete)
  then show "\<forall>sub \<in> set batch. map_of m (index sub) \<noteq> None"
    by (auto simp: missing_ids_def filter_empty_conv)
  from ok show "process_batch_recursive chat a batch b = Inr (m, b1)"
    by (rule process_batch_recursive_success)
next
  assume "chat s mdl system_prompt user_input = (Inr content, s') \<and> bid \<in> set batch_ids
       \<and> map_of (parse_llm_response content) bid = None"
  then have c: "chat s mdl system_prompt user_input = (Inr content, s')"
    and "missing_ids batch_ids (parse_llm_response content) \<noteq> []"
    by (auto simp: missing_ids_def filter_empty_conv)
  then show "attempts chat mdl system_prompt user_input batch_ids (Suc n) s
        = attempts chat mdl system_prompt user_input batch_ids n s'"
    by (simp add: Let_def)
next
  assume "try_batch chat a batch' b' = (None, b1') \<and> 2 \<le> length batch'"
  then have e: "try_batch chat a batch' b' = (None, b1')" and many: "\<not> length batch' \<le> 1"
    by simp_all
  from process_batch_recursive_split[OF e many]
  show "\<exists>results_left b2 results_right b3.
         process_batch_recursive chat a (take (length batch' div 2) batch') b1'
           = Inr (results_left, b2)
       \<and> process_batch_recursive chat a (drop (length batch' div 2) batch') b2
           = Inr (results_right, b3)
       \<and> process_batch_recursive chat a batch' b'
           = Inr (dict_merge results_left results_right, b3)" .
qed

text \<open>
  C2 on the batch with ids 3, 4, 5, 6: a complete reply is returned; a reply without id 5
  is passed over; two such replies use up the attempts and the halves are translated.
\<close>

theorem success_exit_needs_every_id_witness:
  "try_batch scripted_chat default_args
       [sub_of_id ''3'', sub_of_id ''4'', sub_of_id ''5'', sub_of_id ''6'']
       [Inr ''3 >>> a\<newline>4 >>> b\<newline>5 >>> c\<newline>6 >>> d'']
     = (Some [(''3'', ''a''), (''4'', ''b''), (''5'', ''c''), (''6'', ''d'')], [])
   \<and> map_of [(''3'', ''a''), (''4'', ''b''), (''5'', ''c''), (''6'', ''d'')] (index (sub_of_id ''5''))
       \<noteq> None
   \<and> scripted_chat [Inr ''3 >>> a\<newline>4 >>> b\<newline>6 >>> d'', Inr ''3 >>> a\<newline>4 >>> b'']
         ''llama3'' ''s'' ''u''
       = (Inr ''3 >>> a\<newline>4 >>> b\<newline>6 >>> d'', [Inr ''3 >>> a\<newline>4 >>> b''])
   \<and> ''5'' \<in> set [''3'', ''4'', ''5'', ''6'']
   \<and> map_of (parse_llm_response ''3 >>> a\<newline>4 >>> b\<newline>6 >>> d'') ''5'' = None
   \<and> attempts scripted_chat ''llama3'' ''s'' ''u'' [''3'', ''4'', ''5'', ''6''] (Suc 1)
         [Inr ''3 >>> a\<newline>4 >>> b\<newline>6 >>> d'', Inr ''3 >>> a\<newline>4 >>> b'']
       = attempts scripted_chat ''llama3'' ''s'' ''u'' [''3'', ''4'', ''5'', ''6''] 1
           [Inr ''3 >>> a\<newline>4 >>> b'']
   \<and> try_batch scripted_chat default_args
       [sub_of_id ''3'', sub_of_id ''4'', sub_of_id ''5'', sub_of_id ''6'']
       [Inr ''3 >>> a\<newline>4 >>> b\<newline>6 >>> d'', Inr ''3 >>> a\<newline>4 >>> b\<newline>6 >>> d'',
        Inr ''3 >>> a\<newline>4 >>> b'', Inr ''5 >>> c\<newline>6 >>> d'']
     = (None, [Inr ''3 >>> a\<newline>4 >>> b'', Inr ''5 >>> c\<newline>6 >>> d''])
   \<and> 2 \<le> length [sub_of_id ''3'', sub_of_id ''4'', sub_of_id ''5'', sub_of_id ''6'']
   \<and> process_batch_recursive scripted_chat default_args
       [sub_of_id ''3'', sub_of_id ''4'', sub_of_id ''5'', sub_of_id ''6'']
       [Inr ''3 >>> a\<newline>4 >>> b\<newline>6 >>> d'', Inr ''3 >>> a\<newline>4 >>> b\<newline>6 >>> d'',
        Inr ''3 >>> a\<newline>4 >>> b'', Inr ''5 >>> c\<newline>6 >>> d'']
     = Inr ([(''3'', ''a''), (''4'', ''b''), (''5'', ''c''), (''6'', ''d'')], [])"
proof -
  let ?batch = "[sub_of_id ''3'', sub_of_id ''4'', sub_of_id ''5'', sub_of_id ''6'']"
  let ?short = "''3 >>> a\<newline>4 >>> b\<newline>6 >>> d''"
  let ?B = "[Inr ?short, Inr ?short, Inr ''3 >>> a\<newline>4 >>> b'', Inr ''5 >>> c\<newline>6 >>> d'']"
  let ?B1 = "[Inr ''3 >>> a\<newline>4 >>> b'', Inr ''5 >>> c\<newline>6 >>> d'']"
  note claim = success_exit_needs_every_id[where chat = scripted_chat and n = 1]
  have a1: "try_batch scripted_chat default_args ?batch
       [Inr ''3 >>> a\<newline>4 >>> b\<newline>5 >>> c\<newline>6 >>> d'']
     = (Some [(''3'', ''a''), (''4'', ''b''), (''5'', ''c''), (''6'', ''d'')], [])"
    by code_simp
  have a2: "sub_of_id ''5'' \<in> set ?batch" by simp
  from claim[THEN conjunct1, THEN mp, OF a1, THEN conjunct1, THEN bspec, OF a2]
  have p1: "map_of [(''3'', ''a''), (''4'', ''b''), (''5'', ''c''), (''6'', ''d'')]
      (index (sub_of_id ''5'')) \<noteq> None" .
  have c1: "scripted_chat [Inr ?short, Inr ''3 >>> a\<newline>4 >>> b''] ''llama3'' ''s'' ''u''
       = (Inr ?short, [Inr ''3 >>> a\<newline>4 >>> b''])"
    by code_simp
  have c2: "''5'' \<in> set [''3'', ''4'', ''5'', ''6'']" by simp
  have c3: "map_of (parse_llm_response ?short) ''5'' = None" by code_simp
  from claim[THEN conjunct2, THEN conjunct1, THEN mp, OF conjI[OF c1 conjI[OF c2 c3]]]
  have p2: "attempts scripted_chat ''llama3'' ''s'' ''u'' [''3'', ''4'', ''5'', ''6''] (Suc 1)
         [Inr ?short, Inr ''3 >>> a\<newline>4 >>> b'']
       = attempts scripted_chat ''llama3'' ''s'' ''u'' [''3'', ''4'', ''5'', ''6''] 1
           [Inr ''3 >>> a\<newline>4 >>> b'']" .
  have e1: "try_batch scripted_chat default_args ?batch ?B = (None, ?B1)"
    by code_simp
  have e2: "2 \<le> length ?batch" by simp
  have tk: "take (length ?batch div 2) ?batch = [sub_of_id ''3'', sub_of_id ''4'']"
    and dr: "drop (length ?batch div 2) ?batch = [sub_of_id ''5'', sub_of_id ''6'']"
    by simp_all
  have eL: "process_batch_recursive scripted_chat default_args [sub_of_id ''3'', sub_of_id ''4''] ?B1
      = Inr ([(''3'', ''a''), (''4'', ''b'')], [Inr ''5 >>> c\<newline>6 >>> d''])"
    by (rule process_batch_recursive_success) code_simp
  have eR: "process_batch_recursive scripted_chat default_args [sub_of_id ''5'', sub_of_id ''6'']
      [Inr ''5 >>> c\<newline>6 >>> d''] = Inr ([(''5'', ''c''), (''6'', ''d'')], [])"
    by (rule process_batch_recursive_success) code_simp
  have mg: "dict_merge [(''3'', ''a''), (''4'', ''b'')] [(''5'', ''c''), (''6'', ''d'')]
      = [(''3'', ''a''), (''4'', ''b''), (''5'', ''c''), (''6'', ''d'')]"
    by code_simp
  from claim[THEN conjunct2, THEN conjunct2, THEN mp, OF conjI[OF e1 e2]]
  obtain ml b2 mr b3 where
    L: "process_batch_recursive scripted_chat default_args (take (length ?batch div 2) ?batch) ?B1
          = Inr (ml, b2)" and
    R: "process_batch_recursive scripted_chat default_args (drop (length ?batch div 2) ?batch) b2
          = Inr (mr, b3)" and
    W: "process_batch_recursive scripted_chat default_args ?batch ?B = Inr (dict_merge ml mr, b3)"
    by (elim exE conjE) (rule that, assumption+)
  from L have ml: "ml = [(''3'', ''a''), (''4'', ''b'')]" and b2: "b2 = [Inr ''5 >>> c\<newline>6 >>> d'']"
    unfolding tk eL by simp_all
  from R have mr: "mr = [(''5'', ''c''), (''6'', ''d'')]" and b3: "b3 = []"
    unfolding dr b2 eR by simp_all
  from W have p3: "process_batch_recursive scripted_chat default_args ?batch ?B
      = Inr ([(''3'', ''a''), (''4'', ''b''), (''5'', ''c''), (''6'', ''d'')], [])"
    unfolding ml mr b3 mg .
  from a1 p1 c1 c2 c3 p2 e1 e2 p3 show ?thesis by (intro conjI)
qed




text \<open>
  C9. For every batch of \<open>n \<ge> 1\<close> records, every invocation reached from the call at
  depth 0 has a depth of at most \<open>\<lceil>log\<^sub>2 n\<rceil>\<close> (so depth 0 only, for \<open>n = 1\<close>) and a
  batch that is not empty; an invocation invokes only the two halves of its batch, of
  sizes \<open>n div 2\<close> and \<open>(n + 1) div 2\<close>, one level deeper, and only when the batch has
  two records or more; a batch of one record invokes nothing; and the call returns.
\<close>

theorem recursion_depth_bounded:
  assumes "batch \<noteq> []"
  shows "(\<forall>batch' depth b'. (invokes chat a)\<^sup>*\<^sup>* (batch, 0, b) (batch', depth, b') \<longrightarrow>
            depth \<le> ceillog2 (length batch) \<and> batch' \<noteq> [])
       \<and> (\<forall>depth callee. invokes chat a (batch, depth, b) callee \<longrightarrow>
            2 \<le> length batch
            \<and> (\<exists>s. callee = (take (length batch div 2) batch, depth + 1, s)
                   \<or> callee = (drop (length batch div 2) batch, depth + 1, s)))
       \<and> length (take (length batch div 2) batch) = length batch div 2
       \<and> length (drop (length batch div 2) batch) = (length batch + 1) div 2
       \<and> (length batch = 1 \<longrightarrow> (\<forall>depth callee. \<not> invokes chat a (batch, depth, b) callee))
       \<and> (\<exists>m s. process_batch_recursive chat a batch b = Inr (m, s))"
proof -
  let ?k = "ceillog2 (length batch)"
  from assms have pos: "0 < length batch" by simp
  from ceillog2_le_iff[OF pos, of ?k] have le: "length batch \<le> 2 ^ ?k" by simp
  have depth: "\<forall>batch' depth b'. (invokes chat a)\<^sup>*\<^sup>* (batch, 0, b) (batch', depth, b') \<longrightarrow>
            depth \<le> ?k \<and> batch' \<noteq> []"
  proof (intro allI impI)
    fix batch' depth b'
    assume r: "(invokes chat a)\<^sup>*\<^sup>* (batch, 0, b) (batch', depth, b')"
    from invokes_invariant[OF r, of ?k] assms le
    show "depth \<le> ?k \<and> batch' \<noteq> []" by simp
  qed
  have step: "\<forall>depth callee. invokes chat a (batch, depth, b) callee \<longrightarrow>
            2 \<le> length batch
            \<and> (\<exists>s. callee = (take (length batch div 2) batch, depth + 1, s)
                   \<or> callee = (drop (length batch div 2) batch, depth + 1, s))"
  proof (intro allI impI)
    fix depth callee
    assume "invokes chat a (batch, depth, b) callee"
    then show "2 \<le> length batch
            \<and> (\<exists>s. callee = (take (length batch div 2) batch, depth + 1, s)
                   \<or> callee = (drop (length batch div 2) batch, depth + 1, s))"
      by (rule invokes_step)
  qed
  have half: "n - n div 2 = (n + 1) div 2" for n :: nat
    by presburger
  have sizes: "length (take (length batch div 2) batch) = length batch div 2"
    "length (drop (length batch div 2) batch) = (length batch + 1) div 2"
    by (simp_all add: min_absorb2 half)
  have base: "length batch = 1 \<longrightarrow> (\<forall>depth callee. \<not> invokes chat a (batch, depth, b) callee)"
  proof (intro impI allI notI)
    fix depth callee
    assume l: "length batch = 1" and i: "invokes chat a (batch, depth, b) callee"
    from invokes_step[OF i] l show False by simp
  qed
  from process_batch_recursive_total[OF assms, of chat a b]
  have total: "\<exists>m s. process_batch_recursive chat a batch b = Inr (m, s)" .
  from depth step sizes base total show ?thesis by (intro conjI)
qed


text \<open>
  C9 on three records and a backend that never answers: the call on the third record is
  reached at depth 2, which is \<open>\<lceil>log\<^sub>2 3\<rceil>\<close>.
\<close>

theorem recursion_depth_bounded_witness:
  "[sub_of_id ''1'', sub_of_id ''2'', sub_of_id ''3''] \<noteq> []
   \<and> (invokes scripted_chat default_args)\<^sup>*\<^sup>*
        ([sub_of_id ''1'', sub_of_id ''2'', sub_of_id ''3''], 0, [])
        ([sub_of_id ''3''], 2, [])
   \<and> 2 \<le> ceillog2 (length [sub_of_id ''1'', sub_of_id ''2'', sub_of_id ''3''])
   \<and> ceillog2 3 = 2"
proof -
  let ?B = "[sub_of_id ''1'', sub_of_id ''2'', sub_of_id ''3'']"
  let ?R = "[sub_of_id ''2'', sub_of_id ''3'']"
  have ne: "?B \<noteq> []" by simp
  have t3: "try_batch scripted_chat default_args ?B [] = (None, [])" by code_simp
  have t2: "try_batch scripted_chat default_args ?R [] = (None, [])" by code_simp
  have l3: "process_batch_recursive scripted_chat default_args [sub_of_id ''1''] [] = Inr ([], [])"
    by (rule process_batch_recursive_single) code_simp
  have l2: "process_batch_recursive scripted_chat default_args [sub_of_id ''2''] [] = Inr ([], [])"
    by (rule process_batch_recursive_single) code_simp
  have "invokes scripted_chat default_args (?B, 0, [])
          (drop (length ?B div 2) ?B, 0 + 1, [])"
    by (rule invokes_right[OF t3, where results_left = "[]"]) (simp_all add: l3)
  then have i1: "invokes scripted_chat default_args (?B, 0, []) (?R, 1, [])"
    by simp
  have "invokes scripted_chat default_args (?R, 1, [])
          (drop (length ?R div 2) ?R, 1 + 1, [])"
    by (rule invokes_right[OF t2, where results_left = "[]"]) (simp_all add: l2)
  then have i2: "invokes scripted_chat default_args (?R, 1, []) ([sub_of_id ''3''], 2, [])"
    by (simp add: numeral_2_eq_2)
  from i1 i2 have r: "(invokes scripted_chat default_args)\<^sup>*\<^sup>* (?B, 0, []) ([sub_of_id ''3''], 2, [])"
    by (rule converse_rtranclp_into_rtranclp[OF _ r_into_rtranclp])
  from recursion_depth_bounded[OF ne, of scripted_chat default_args "[]",
      THEN conjunct1, THEN spec, THEN spec, THEN spec, THEN mp, OF r]
  have d: "2 \<le> ceillog2 (length ?B)" by (rule conjunct1)
  have c: "ceillog2 3 = 2" by code_simp
  from ne r d c show ?thesis by (intro conjI)
qed

text \<open>
  C10 (as amended). Let the lines of a backend reply contain a line that matches the new-entry pattern
  with id \<open>k\<close> and an empty remainder, let every line after it up to the next entry be
  blank, and let no later line start an entry with id \<open>k\<close> again. Then the response parser
  maps \<open>k\<close> to the empty string and the validation does not count \<open>k\<close> as missing; if the
  other ids of the batch have entries too and the reply is the backend's answer to the
  translator's first attempt, at least one attempt being allowed, then the reply is
  complete, the translator returns its map as a success, and the driver sets the translated
  text of the record with id \<open>k\<close> to the empty string, whatever its source text.
\<close>

theorem empty_remainder_is_accepted:
  assumes "split_nl (strip reply) = pre @ l # post"
    and "new_block_match (strip l) = Some (k, [])"
    and "\<forall>x \<in> set (takeWhile (\<lambda>x. new_block_match (strip x) = None) post). strip x = []"
    and "\<forall>x \<in> set post. \<forall>t. new_block_match (strip x) \<noteq> Some (k, t)"
    and "0 < retries a"
    and "chat b (model a) (fst (generate_prompt batch (lang a))) (snd (generate_prompt batch (lang a)))
           = (Inr reply, b1)"
    and "\<forall>s \<in> set batch. index s \<noteq> k \<longrightarrow> map_of (parse_llm_response reply) (index s) \<noteq> None"
    and "sub \<in> set batch" and "index sub = k"
  shows "map_of (parse_llm_response reply) k = Some []
       \<and> k \<notin> set (missing_ids (map index batch) (parse_llm_response reply))
       \<and> missing_ids (map index batch) (parse_llm_response reply) = []
       \<and> process_batch_recursive chat a batch b = Inr (parse_llm_response reply, b1)
       \<and> set_translation (parse_llm_response reply) sub = sub\<lparr>translated_text := []\<rparr>"
proof -
  let ?m = "parse_llm_response reply"
  from parse_llm_response_empty_entry[OF assms(1-4)] have e: "map_of ?m k = Some []" .
  then have present: "k \<notin> set (missing_ids (map index batch) ?m)"
    by (simp add: missing_ids_def)
  from e assms(7) have complete: "missing_ids (map index batch) ?m = []"
    by (auto simp: missing_ids_def filter_empty_conv)
  from assms(5) obtain n where n: "nat (retries a) = Suc n"
    by (cases "nat (retries a)") auto
  from assms(6) complete have "try_batch chat a batch b = (Some ?m, b1)"
    by (simp add: try_batch_def n Let_def split_beta)
  then have p: "process_batch_recursive chat a batch b = Inr (?m, b1)"
    by (rule process_batch_recursive_success)
  from e have "?m \<noteq> []" by auto
  with e assms(9) have "set_translation ?m sub = sub\<lparr>translated_text := []\<rparr>"
    by (simp add: set_translation_def)
  with e present complete p show ?thesis by (intro conjI)
qed

text \<open>
  C10 on a batch with ids 1, 2, 3 and a reply whose entry for id 2 has no text and is
  followed by a blank line.
\<close>

theorem empty_remainder_is_accepted_witness:
  "parse_llm_response ''1 >>> Uno\<newline>2 >>>\<newline>\<newline>3 >>> Tres''
     = [(''1'', ''Uno''), (''2'', []), (''3'', ''Tres'')]
   \<and> process_batch_recursive scripted_chat default_args
        [sub_of_id ''1'', sub_of_id ''2'', sub_of_id ''3'']
        [Inr ''1 >>> Uno\<newline>2 >>>\<newline>\<newline>3 >>> Tres'']
       = Inr ([(''1'', ''Uno''), (''2'', []), (''3'', ''Tres'')], [])
   \<and> set_translation [(''1'', ''Uno''), (''2'', []), (''3'', ''Tres'')] (sub_of_id ''2'')
       = \<lparr>index = ''2'', timestamp = ''00:00:01,000 --> 00:00:02,000'',
          text_of = ''Hi'', translated_text = []\<rparr>"
proof -
  let ?reply = "''1 >>> Uno\<newline>2 >>>\<newline>\<newline>3 >>> Tres''"
  let ?batch = "[sub_of_id ''1'', sub_of_id ''2'', sub_of_id ''3'']"
  have pr: "parse_llm_response ?reply = [(''1'', ''Uno''), (''2'', []), (''3'', ''Tres'')]"
    by code_simp
  have h1: "split_nl (strip ?reply) = [''1 >>> Uno''] @ ''2 >>>'' # [[], ''3 >>> Tres'']"
    by code_simp
  have h2: "new_block_match (strip ''2 >>>'') = Some (''2'', [])"
    by code_simp
  have m0: "new_block_match (strip []) = None" and s0: "strip [] = []"
    and m3: "new_block_match (strip ''3 >>> Tres'') = Some (''3'', ''Tres'')"
    by code_simp+
  have h3: "\<forall>x \<in> set (takeWhile (\<lambda>x. new_block_match (strip x) = None) [[], ''3 >>> Tres'']).
              strip x = []"
    by (simp add: m0 m3 s0)
  have h4: "\<forall>x \<in> set [[], ''3 >>> Tres'']. \<forall>t. new_block_match (strip x) \<noteq> Some (''2'', t)"
    by (simp add: m0 m3)
  have h5: "0 < retries default_args"
    by (simp add: default_args_def)
  have h6: "scripted_chat [Inr ?reply] (model default_args)
              (fst (generate_prompt ?batch (lang default_args)))
              (snd (generate_prompt ?batch (lang default_args))) = (Inr ?reply, [])"
    by (simp add: scripted_chat_def)
  have h7: "\<forall>s \<in> set ?batch. index s \<noteq> ''2'' \<longrightarrow>
              map_of (parse_llm_response ?reply) (index s) \<noteq> None"
    unfolding pr by (simp add: sub_of_id_def)
  have h8: "sub_of_id ''2'' \<in> set ?batch" by simp
  have h9: "index (sub_of_id ''2'') = ''2''" by (simp add: sub_of_id_def)
  note r = empty_remainder_is_accepted[where chat = scripted_chat and b = "[Inr ?reply]",
      OF h1 h2 h3 h4 h5 h6 h7 h8 h9, unfolded pr]
  note p = r[THEN conjunct2, THEN conjunct2, THEN conjunct2, THEN conjunct1]
  have "set_translation [(''1'', ''Uno''), (''2'', []), (''3'', ''Tres'')] (sub_of_id ''2'')
       = (sub_of_id ''2'')\<lparr>translated_text := []\<rparr>"
    by (rule r[THEN conjunct2, THEN conjunct2, THEN conjunct2, THEN conjunct2])
  then have t: "set_translation [(''1'', ''Uno''), (''2'', []), (''3'', ''Tres'')] (sub_of_id ''2'')
       = \<lparr>index = ''2'', timestamp = ''00:00:01,000 --> 00:00:02,000'',
          text_of = ''Hi'', translated_text = []\<rparr>"
    by (simp add: sub_of_id_def)
  from pr p t show ?thesis by (intro conjI)
qed

text \<open>
  C10 as stated fails when a later line starts an entry with the same id: the line
  \<^verbatim>\<open>2 >>>\<close> has an empty remainder and is followed at once by the next entry, yet the
  parsed map sends id 2 to \<^verbatim>\<open>Dos\<close>, the text of the later entry, and the driver stores
  that text.
\<close>

theorem empty_remainder_overwritten_counterexample:
  "split_nl (strip ''1 >>> Uno\<newline>2 >>>\<newline>2 >>> Dos'') = [''1 >>> Uno'', ''2 >>>'', ''2 >>> Dos'']
   \<and> new_block_match (strip ''2 >>>'') = Some (''2'', [])
   \<and> new_block_match (strip ''2 >>> Dos'') = Some (''2'', ''Dos'')
   \<and> parse_llm_response ''1 >>> Uno\<newline>2 >>>\<newline>2 >>> Dos'' = [(''1'', ''Uno''), (''2'', ''Dos'')]
   \<and> map_of (parse_llm_response ''1 >>> Uno\<newline>2 >>>\<newline>2 >>> Dos'') ''2'' \<noteq> Some []
   \<and> translated_text (set_translation (parse_llm_response ''1 >>> Uno\<newline>2 >>>\<newline>2 >>> Dos'')
         (sub_of_id ''2'')) = ''Dos''"
  by code_simp




text \<open>
  C5 (as amended). Take an input made of \<open>N\<close> blocks with a run of two or more newlines
  between neighbours and any number of newlines at the end, where every block has an id
  line, a timecode line and one text line at least, every line is non-empty, the first id
  line has a character that is not whitespace, and the last text line does not end with
  whitespace. The subtitle parser produces exactly \<open>N\<close> records in the order of the
  blocks: the id is the id line stripped and reduced to its digits, the timecode is the
  timecode line stripped, the text is the text lines joined by newlines. Serialising the
  records with the translated text set to the source text writes, for each record in
  order, id, timecode and text, each ended by a newline, and one empty line; when every id
  line consists of digits and no timecode line has whitespace around it, that output is the
  blocks of the input, unchanged, each followed by exactly one empty line.
\<close>

theorem parse_srt_round_trip:
  assumes "\<forall>blk \<in> set blks. block_ok blk"
    and "blks \<noteq> [] \<longrightarrow> strip (id_line (hd blks)) \<noteq> []
           \<and> \<not> isspace (last (last (text_lines (last blks))))"
  shows "parse_srt (srt_content blks trailing) = map record_of blks
       \<and> length (parse_srt (srt_content blks trailing)) = length blks
       \<and> write_subs (map (set_translation []) (parse_srt (srt_content blks trailing)))
           = concat (map (\<lambda>blk. remove_non_digits (strip (id_line blk)) @ [nl]
                                  @ strip (timecode_line blk) @ [nl]
                                  @ join_nl (text_lines blk) @ [nl, nl]) blks)
       \<and> ((\<forall>blk \<in> set blks. list_all isdigit (id_line blk)
                \<and> strip (timecode_line blk) = timecode_line blk) \<longrightarrow>
            write_subs (map (set_translation []) (parse_srt (srt_content blks trailing)))
              = concat (map (\<lambda>blk. block_text blk @ [nl, nl]) blks))"
proof -
  have parsed: "parse_srt (srt_content blks trailing) = map record_of blks"
  proof (cases blks)
    case Nil
    have "strip (replicate trailing nl) = []"
      by (rule strip_whitespace) (simp add: isspace_nl)
    with Nil show ?thesis
      by (simp add: srt_content_def parse_srt_def parse_block_def)
  next
    case (Cons blk rest)
    let ?blk = "blk\<lparr>id_line := dropWhile isspace (id_line blk)\<rparr>"
    from assms(1) Cons have ok: "block_ok blk" and okr: "\<forall>b \<in> set rest. block_ok b"
      by simp_all
    from assms(2) Cons have st: "strip (id_line blk) \<noteq> []"
      and la: "\<not> isspace (last (last (text_lines (last (blk # rest)))))" by simp_all
    from st have dn: "dropWhile isspace (id_line blk) \<noteq> []"
      by (rule strip_not_Nil)
    from ok have tl: "text_lines blk \<noteq> []" and nn: "nl \<notin> set (id_line blk)"
      by (simp_all add: block_ok_def block_lines_def)
    from nn have "nl \<notin> set (dropWhile isspace (id_line blk))"
      by (meson set_dropWhileD)
    with ok dn have ok': "block_ok ?blk"
      by (simp add: block_ok_def block_lines_def)
    from dn have hd: "\<not> isspace (hd (id_line (hd (?blk # rest))))"
      by (simp add: hd_dropWhile)
    from la have la': "\<not> isspace (last (last (text_lines (last (?blk # rest)))))"
      by (cases rest) simp_all
    from ok' okr have all: "\<forall>b \<in> set (?blk # rest). block_ok b" by simp
    have ws: "\<forall>c \<in> set (takeWhile isspace (id_line blk)). isspace c"
      by (meson set_takeWhileD)
    have jl: "joined_blocks (blk # rest)
        = takeWhile isspace (id_line blk) @ joined_blocks (?blk # rest)"
      using tl by (rule joined_blocks_leading)
    have "srt_content blks trailing
        = takeWhile isspace (id_line blk) @ joined_blocks (?blk # rest) @ replicate trailing nl"
      unfolding srt_content_def Cons by (subst jl) simp
    with parse_srt_trimmed[OF _ all hd la' ws, of trailing]
    have "parse_srt (srt_content blks trailing) = map record_of (?blk # rest)" by simp
    moreover have "record_of ?blk = record_of blk"
      by (simp add: record_of_def strip_dropWhile)
    ultimately show ?thesis using Cons by simp
  qed
  have written: "write_subs (map (set_translation []) (map record_of blks))
      = concat (map (\<lambda>blk. remove_non_digits (strip (id_line blk)) @ [nl]
                             @ strip (timecode_line blk) @ [nl]
                             @ join_nl (text_lines blk) @ [nl, nl]) blks)"
    by (simp add: write_subs_def write_sub_def set_translation_def record_of_def comp_def)
  have exact: "(\<forall>blk \<in> set blks. list_all isdigit (id_line blk)
                \<and> strip (timecode_line blk) = timecode_line blk) \<longrightarrow>
            write_subs (map (set_translation []) (map record_of blks))
              = concat (map (\<lambda>blk. block_text blk @ [nl, nl]) blks)"
  proof
    assume std: "\<forall>blk \<in> set blks. list_all isdigit (id_line blk)
                \<and> strip (timecode_line blk) = timecode_line blk"
    have "remove_non_digits (strip (id_line blk)) @ [nl] @ strip (timecode_line blk) @ [nl]
            @ join_nl (text_lines blk) @ [nl, nl] = block_text blk @ [nl, nl]"
      if "blk \<in> set blks" for blk
    proof -
      from that std have dg: "list_all isdigit (id_line blk)"
        and tc: "strip (timecode_line blk) = timecode_line blk" by simp_all
      from that assms(1) have "block_ok blk" by simp
      then have tl: "text_lines blk \<noteq> []" and ne: "id_line blk \<noteq> []"
        by (simp_all add: block_ok_def block_lines_def)
      from dg ne have "isdigit (hd (id_line blk))" "isdigit (last (id_line blk))"
        by (simp_all add: list_all_iff)
      then have "strip (id_line blk) = id_line blk"
        by (simp add: strip_id_iff isdigit_not_isspace)
      moreover from dg have "filter isdigit (id_line blk) = id_line blk"
        by (simp add: list_all_iff)
      ultimately show ?thesis
        using tc tl by (simp add: remove_non_digits_def block_text_split)
    qed
    then have meq: "map (\<lambda>blk. remove_non_digits (strip (id_line blk)) @ [nl]
                             @ strip (timecode_line blk) @ [nl]
                             @ join_nl (text_lines blk) @ [nl, nl]) blks
        = map (\<lambda>blk. block_text blk @ [nl, nl]) blks"
      by (intro map_cong refl)
    show "write_subs (map (set_translation []) (map record_of blks))
              = concat (map (\<lambda>blk. block_text blk @ [nl, nl]) blks)"
      unfolding written meq by (rule refl)
  qed
  from parsed written exact show ?thesis by simp
qed

text \<open>
  C5 (as amended) on a file of two blocks, with three newlines between them and one at
  the end.
\<close>

theorem parse_srt_round_trip_witness:
  "block_ok example_block_1 \<and> block_ok example_block_2
   \<and> strip (id_line example_block_1) \<noteq> []
   \<and> \<not> isspace (last (last (text_lines example_block_2)))
   \<and> srt_content [example_block_1, example_block_2] 1
       = ''1\<newline>00:00:01,000 --> 00:00:02,000\<newline>Hello\<newline>world\<newline>\<newline>\<newline>2\<newline>00:00:03,000 --> 00:00:04,000\<newline>Bye\<newline>''
   \<and> parse_srt (srt_content [example_block_1, example_block_2] 1)
       = [\<lparr>index = ''1'', timestamp = ''00:00:01,000 --> 00:00:02,000'',
           text_of = ''Hello\<newline>world'', translated_text = []\<rparr>,
          \<lparr>index = ''2'', timestamp = ''00:00:03,000 --> 00:00:04,000'',
           text_of = ''Bye'', translated_text = []\<rparr>]
   \<and> length (parse_srt (srt_content [example_block_1, example_block_2] 1)) = 2
   \<and> write_subs (map (set_translation [])
         (parse_srt (srt_content [example_block_1, example_block_2] 1)))
       = ''1\<newline>00:00:01,000 --> 00:00:02,000\<newline>Hello\<newline>world\<newline>\<newline>2\<newline>00:00:03,000 --> 00:00:04,000\<newline>Bye\<newline>\<newline>''"
proof -
  let ?blks = "[example_block_1, example_block_2]"
  have ok1: "block_ok example_block_1" and ok2: "block_ok example_block_2"
    by code_simp+
  have s1: "strip (id_line example_block_1) \<noteq> []" by code_simp
  have l2: "\<not> isspace (last (last (text_lines example_block_2)))" by code_simp
  from ok1 ok2 have h1: "\<forall>blk \<in> set ?blks. block_ok blk" by simp
  from s1 l2 have h2: "?blks \<noteq> [] \<longrightarrow> strip (id_line (hd ?blks)) \<noteq> []
      \<and> \<not> isspace (last (last (text_lines (last ?blks))))" by simp
  have d1: "list_all isdigit (id_line example_block_1)
      \<and> strip (timecode_line example_block_1) = timecode_line example_block_1"
    and d2: "list_all isdigit (id_line example_block_2)
      \<and> strip (timecode_line example_block_2) = timecode_line example_block_2"
    by code_simp+
  then have std: "\<forall>blk \<in> set ?blks. list_all isdigit (id_line blk)
      \<and> strip (timecode_line blk) = timecode_line blk" by simp
  have c: "srt_content ?blks 1
       = ''1\<newline>00:00:01,000 --> 00:00:02,000\<newline>Hello\<newline>world\<newline>\<newline>\<newline>2\<newline>00:00:03,000 --> 00:00:04,000\<newline>Bye\<newline>''"
    by code_simp
  have r: "map record_of ?blks
       = [\<lparr>index = ''1'', timestamp = ''00:00:01,000 --> 00:00:02,000'',
           text_of = ''Hello\<newline>world'', translated_text = []\<rparr>,
          \<lparr>index = ''2'', timestamp = ''00:00:03,000 --> 00:00:04,000'',
           text_of = ''Bye'', translated_text = []\<rparr>]"
    by code_simp
  have w: "concat (map (\<lambda>blk. block_text blk @ [nl, nl]) ?blks)
       = ''1\<newline>00:00:01,000 --> 00:00:02,000\<newline>Hello\<newline>world\<newline>\<newline>2\<newline>00:00:03,000 --> 00:00:04,000\<newline>Bye\<newline>\<newline>''"
    by code_simp
  note t = parse_srt_round_trip[OF h1 h2, of 1]
  note p = t[THEN conjunct1, unfolded r]
  note n = t[THEN conjunct2, THEN conjunct1]
  note x = t[THEN conjunct2, THEN conjunct2, THEN conjunct2, THEN mp, OF std, unfolded w]
  from n have n': "length (parse_srt (srt_content ?blks 1)) = 2" by simp
  from ok1 ok2 s1 l2 c p n' x show ?thesis by (intro conjI)
qed

text \<open>
  C5 as stated fails on inputs of one block of three lines. With a space on each side of
  the timecode the serialised timecode line is not the input's; with a space at the end of
  the text the record's text has lost it, since the whole input is stripped first; and when
  the first line is a single space the strip removes the line and no record is produced.
\<close>

theorem parse_srt_round_trip_counterexample:
  "length (split_nl ''7\<newline> 00:00:01,000 --> 00:00:02,000 \<newline>Hi'') = 3
   \<and> re_split_blank (strip ''7\<newline> 00:00:01,000 --> 00:00:02,000 \<newline>Hi'')
       = [''7\<newline> 00:00:01,000 --> 00:00:02,000 \<newline>Hi'']
   \<and> write_subs (map (set_translation [])
         (parse_srt ''7\<newline> 00:00:01,000 --> 00:00:02,000 \<newline>Hi''))
       = ''7\<newline>00:00:01,000 --> 00:00:02,000\<newline>Hi\<newline>\<newline>''
   \<and> map timestamp (parse_srt ''7\<newline> 00:00:01,000 --> 00:00:02,000 \<newline>Hi'')
       \<noteq> ['' 00:00:01,000 --> 00:00:02,000 '']
   \<and> length (split_nl ''7\<newline>00:00:01,000 --> 00:00:02,000\<newline>Hi '') = 3
   \<and> map text_of (parse_srt ''7\<newline>00:00:01,000 --> 00:00:02,000\<newline>Hi '') = [''Hi'']
   \<and> length (split_nl '' \<newline>00:00:01,000 --> 00:00:02,000\<newline>Hi'') = 3
   \<and> parse_srt '' \<newline>00:00:01,000 --> 00:00:02,000\<newline>Hi'' = []"
  by code_simp

end
